theory Spec2Isabelle
  imports Complex_Main "HOL-Library.Multiset"
begin

section \<open>The 8-puzzle core of App.tsx\<close>

text \<open>
  A state is the source's \<^verbatim>\<open>number[]\<close> of length 9 with 0 for the blank. Numbers that
  hold cell values and grid coordinates are integers (\<^typ>\<open>int\<close>); counters that start at
  0 and only grow (the cost \<open>g\<close>, the estimate \<open>f\<close>, the inversion count) are naturals.
\<close>

type_synonym State = "int list"

definition GOAL :: State where
  "GOAL = [1, 2, 3, 4, 5, 6, 7, 8, 0]"

subsection \<open>JavaScript primitives the core uses\<close>

text \<open>\<^verbatim>\<open>Array.prototype.indexOf\<close>: the first index holding the value, or -1.\<close>

fun indexOf :: "int list \<Rightarrow> int \<Rightarrow> int" where
  "indexOf [] v = - 1"
| "indexOf (x # xs) v =
     (if x = v then 0 else (let r = indexOf xs v in if r < 0 then - 1 else r + 1))"

text \<open>
  The remainder operator \<^verbatim>\<open>%\<close> takes the sign of the dividend (the divisor is the
  literal 3 everywhere in the core); \<^verbatim>\<open>Math.floor(a / 3)\<close> is \<open>a div 3\<close> on integers.
\<close>

definition js_rem :: "int \<Rightarrow> int \<Rightarrow> int" where
  "js_rem a b = (if a < 0 then - ((- a) mod b) else a mod b)"

text \<open>
  The destructuring swap \<^verbatim>\<open>[t[i], t[j]] = [t[j], t[i]]\<close>: both reads happen before the two
  writes. The core only swaps cells that exist (both indices inside the array) when the
  array is a 9-cell configuration; outside the array JavaScript would create
  \<^verbatim>\<open>undefined\<close> cells, which \<^typ>\<open>State\<close> does not have, and the list is left as
  \<^term>\<open>list_update\<close> leaves it.
\<close>

definition swap :: "State \<Rightarrow> int \<Rightarrow> int \<Rightarrow> State" where
  "swap t i j = t[nat i := t ! nat j, nat j := t ! nat i]"

subsection \<open>pos, manhattan, neighbors\<close>

definition pos :: "State \<Rightarrow> int \<Rightarrow> int" where
  "pos s v = indexOf s v"

definition manhattan :: "State \<Rightarrow> nat" where
  "manhattan s =
     fold (\<lambda>v d. let i = pos s v; gi = v - 1
                 in d + (nat \<bar>i div 3 - gi div 3\<bar> + nat \<bar>js_rem i 3 - js_rem gi 3\<bar>))
          [1..8] 0"

definition deltas :: "(int \<times> int) list" where
  "deltas = [(1, 0), (- 1, 0), (0, 1), (0, - 1)]"

text \<open>
  One pass of the \<^verbatim>\<open>for (const [dr, dc] of deltas)\<close> loop. The loop state is the pair
  of the argument array's contents and \<^verbatim>\<open>out\<close>: the body copies \<open>s\<close> with
  \<^verbatim>\<open>s.slice()\<close> and writes only to the copy \<open>t\<close>.
\<close>

definition neighbors_body :: "int \<Rightarrow> int \<Rightarrow> int \<Rightarrow> int \<times> int \<Rightarrow> State \<times> State list \<Rightarrow> State \<times> State list" where
  "neighbors_body z r c d st =
     (case d of (dr, dc) \<Rightarrow> case st of (s, out) \<Rightarrow>
        let nr = r + dr; nc = c + dc in
        if nr < 0 \<or> nr > 2 \<or> nc < 0 \<or> nc > 2 then (s, out)
        else let nz = nr * 3 + nc; t = s; t' = swap t z nz in (s, out @ [t']))"

definition neighbors_run :: "State \<Rightarrow> State \<times> State list" where
  "neighbors_run s =
     (let z = pos s 0; r = z div 3; c = js_rem z 3
      in fold (neighbors_body z r c) deltas (s, []))"

definition neighbors :: "State \<Rightarrow> State list" where
  "neighbors s = snd (neighbors_run s)"

subsection \<open>key\<close>

text \<open>
  \<^verbatim>\<open>s.join(",")\<close> on an array of integers: each number in decimal, separated by commas.
  \<open>show_num\<close> is \<^verbatim>\<open>Number.prototype.toString\<close> on integers (plain decimal notation,
  which JavaScript uses below \<open>10^21\<close>); \<open>Number_of\<close> is \<^verbatim>\<open>Number(str)\<close> on such
  strings, the only ones \<^verbatim>\<open>cur.split(",").map(Number)\<close> ever sees.
\<close>

definition digit_char :: "nat \<Rightarrow> char" where
  "digit_char n = char_of (48 + n)"

function show_nat :: "nat \<Rightarrow> string" where
  "show_nat n = (if n < 10 then [digit_char n] else show_nat (n div 10) @ [digit_char (n mod 10)])"
  by pat_completeness auto
termination
  by (relation "measure (\<lambda>n. n)") auto

definition show_num :: "int \<Rightarrow> string" where
  "show_num i = (if i < 0 then CHR ''-'' # show_nat (nat (- i)) else show_nat (nat i))"

fun join :: "string \<Rightarrow> string list \<Rightarrow> string" where
  "join sep [] = []"
| "join sep [x] = x"
| "join sep (x # y # ys) = x @ sep @ join sep (y # ys)"

definition key :: "State \<Rightarrow> string" where
  "key s = join '','' (map show_num s)"

fun split :: "char \<Rightarrow> string \<Rightarrow> string list" where
  "split c [] = [[]]"
| "split c (x # xs) =
     (if x = c then [] # split c xs
      else (case split c xs of w # ws \<Rightarrow> (x # w) # ws | [] \<Rightarrow> [[x]]))"

definition digit_val :: "char \<Rightarrow> nat" where
  "digit_val ch = of_char ch - 48"

definition Number_of :: "string \<Rightarrow> int" where
  "Number_of str =
     (case str of
        [] \<Rightarrow> 0
      | ch # ds \<Rightarrow>
          if ch = CHR ''-'' then - int (foldl (\<lambda>a d. 10 * a + digit_val d) 0 ds)
          else int (foldl (\<lambda>a d. 10 * a + digit_val d) 0 (ch # ds)))"

definition unkey :: "string \<Rightarrow> State" where
  "unkey k = map Number_of (split CHR '','' k)"

subsection \<open>inversions, isSolvable\<close>

definition inversions :: "State \<Rightarrow> nat" where
  "inversions s =
     (let a = filter (\<lambda>x. x \<noteq> 0) s
      in fold (\<lambda>i inv. fold (\<lambda>j inv. if a ! i > a ! j then inv + 1 else inv)
                              [i + 1..<length a] inv)
              [0..<length a] 0)"

definition isSolvable :: "State \<Rightarrow> bool" where
  "isSolvable s = (inversions s mod 2 = 0)"

subsection \<open>shuffleSolvable\<close>

text \<open>
  The random source is a parameter: \<open>rnd k\<close> is what the \<open>k\<close>-th call of
  \<^verbatim>\<open>Math.random()\<close> returns, a number in \<open>[0, 1)\<close>. The loop state is the array and the
  number of calls made so far. \<^verbatim>\<open>Math.floor(Math.random() * (i + 1))\<close> is taken over the
  reals: it is an index from 0 to \<open>i\<close>, and every such index is the result for some
  number of the source.
\<close>

definition shuffle_body :: "(nat \<Rightarrow> real) \<Rightarrow> nat \<Rightarrow> State \<times> nat \<Rightarrow> State \<times> nat" where
  "shuffle_body rnd i st =
     (case st of (a, k) \<Rightarrow>
        let j = \<lfloor>rnd k * (real i + 1)\<rfloor> in (swap a (int i) j, k + 1))"

definition shuffleSolvable :: "(nat \<Rightarrow> real) \<Rightarrow> State" where
  "shuffleSolvable rnd =
     (let a = fst (fold (shuffle_body rnd) (rev [1..<length GOAL]) (GOAL, 0))
      in if \<not> isSolvable a
         then (let i = indexOf a 1; j = indexOf a 2 in swap a i j)
         else a)"

subsection \<open>aStar\<close>

text \<open>
  The type \<^verbatim>\<open>Node = { f, g, s }\<close> (the fields are prefixed, so that \<open>f\<close>, \<open>g\<close> and \<open>s\<close>
  stay free for variables), and the three variables the loop works on: the array
  \<^verbatim>\<open>open\<close> and the maps \<^verbatim>\<open>parent\<close> and \<^verbatim>\<open>gbest\<close>, keyed by strings.
\<close>

record node =
  node_f :: nat
  node_g :: nat
  node_s :: State

record search =
  opn :: "node list"
  parent :: "string \<rightharpoonup> string option"
  gbest :: "string \<rightharpoonup> nat"

text \<open>
  \<^verbatim>\<open>popMin\<close>: a linear scan for the first entry of least \<open>f\<close>, then
  \<^verbatim>\<open>open.splice(mi, 1)[0]\<close>. The loop calls it on a non-empty list only.
\<close>

definition popMin :: "node list \<Rightarrow> node \<times> node list" where
  "popMin ns =
     (let mi = fold (\<lambda>i mi. if node_f (ns ! i) < node_f (ns ! mi) then i else mi)
                    [1..<length ns] 0
      in (ns ! mi, take mi ns @ drop (Suc mi) ns))"

text \<open>The body of \<^verbatim>\<open>for (const n of neighbors(s))\<close>.\<close>

definition relax :: "nat \<Rightarrow> State \<Rightarrow> State \<Rightarrow> search \<Rightarrow> search" where
  "relax g s n st =
     (let ng = g + 1; nk = key n in
      if (case gbest st nk of None \<Rightarrow> True | Some b \<Rightarrow> ng < b)
      then st\<lparr>gbest := (gbest st)(nk \<mapsto> ng),
              parent := (parent st)(nk \<mapsto> Some (key s)),
              opn := opn st @ [\<lparr>node_f = ng + manhattan n, node_g = ng, node_s = n\<rparr>]\<rparr>
      else st)"

text \<open>
  The reconstruction loop \<^verbatim>\<open>while (parent.get(cur))\<close>: the test is true when the map
  holds a non-empty string for \<open>cur\<close> (absent, \<^verbatim>\<open>null\<close> and \<^verbatim>\<open>""\<close> are falsy).
  A loop that does not return is the value \<open>None\<close>.
\<close>

partial_function (option) reconstruct ::
  "(string \<rightharpoonup> string option) \<Rightarrow> string \<Rightarrow> State list \<Rightarrow> State list option" where
  "reconstruct par cur path =
     (case par cur of
        Some (Some p) \<Rightarrow>
          if p \<noteq> [] then reconstruct par p (path @ [unkey cur]) else Some path
      | _ \<Rightarrow> Some path)"

text \<open>
  The main loop. The outer \<open>option\<close> is termination (\<open>None\<close>: the loop runs forever);
  the inner one is the result \<^verbatim>\<open>State[] | null\<close>.
\<close>

partial_function (option) astar_loop :: "search \<Rightarrow> State list option option" where
  "astar_loop st =
     (if opn st = [] then Some None
      else case popMin (opn st) of (n, rest) \<Rightarrow>
        if key (node_s n) = key GOAL
        then map_option (\<lambda>path. Some (rev path)) (reconstruct (parent st) (key (node_s n)) [])
        else astar_loop
               (fold (relax (node_g n) (node_s n)) (neighbors (node_s n)) (st\<lparr>opn := rest\<rparr>)))"

definition aStar :: "State \<Rightarrow> State list option option" where
  "aStar start =
     (if key start = key GOAL then Some (Some [])
      else astar_loop
             \<lparr>opn = [\<lparr>node_f = manhattan start, node_g = 0, node_s = start\<rparr>],
              parent = [key start \<mapsto> None],
              gbest = [key start \<mapsto> 0]\<rparr>)"

subsection \<open>tryMove\<close>

text \<open>
  The click handler, as a function from the UI state (\<open>busy\<close>, \<open>state\<close>) and the clicked
  grid index to the next \<open>state\<close>; a \<^verbatim>\<open>return\<close> before \<^verbatim>\<open>setState\<close> leaves it as it is.
\<close>

definition tryMove :: "bool \<Rightarrow> State \<Rightarrow> int \<Rightarrow> State" where
  "tryMove busy state i =
     (if busy then state
      else let z = indexOf state 0; zr = z div 3; zc = js_rem z 3;
               ir = i div 3; ic = js_rem i 3
           in if \<bar>zr - ir\<bar> + \<bar>zc - ic\<bar> \<noteq> 1 then state else swap state z i)"

subsection \<open>Configurations, paths\<close>

definition valid :: "State \<Rightarrow> bool" where
  "valid s = (mset s = mset [0, 1, 2, 3, 4, 5, 6, 7, 8])"

fun path_from :: "State \<Rightarrow> State list \<Rightarrow> bool" where
  "path_from s [] = True"
| "path_from s (p # ps) = (p \<in> set (neighbors s) \<and> path_from p ps)"

subsection \<open>Inversions, recursively\<close>

text \<open>
  The number of elements of \<open>ys\<close> below \<open>x\<close>, and the inversion count of a list by
  recursion on it: what the double loop of \<open>inversions\<close> computes on the filtered array.
\<close>

definition below :: "int \<Rightarrow> int list \<Rightarrow> nat" where
  "below x ys = length (filter (\<lambda>y. x > y) ys)"

fun inv_count :: "int list \<Rightarrow> nat" where
  "inv_count [] = 0"
| "inv_count (x # xs) = below x xs + inv_count xs"

definition cross :: "int list \<Rightarrow> int list \<Rightarrow> nat" where
  "cross xs ys = sum_list (map (\<lambda>x. below x ys) xs)"

subsection \<open>Auxiliary notions for the proofs\<close>

text \<open>Arrays of single decimal digits: their keys are read back by \<open>unkey\<close>.\<close>

definition digits :: "State \<Rightarrow> bool" where
  "digits s = (\<forall>x \<in> set s. 0 \<le> x \<and> x \<le> 9)"

text \<open>One summand of \<open>manhattan\<close>: the grid distance of tile \<open>v\<close> from its goal cell.\<close>

definition tile_dist :: "State \<Rightarrow> int \<Rightarrow> nat" where
  "tile_dist s v =
     nat \<bar>pos s v div 3 - (v - 1) div 3\<bar> + nat \<bar>js_rem (pos s v) 3 - js_rem (v - 1) 3\<bar>"

text \<open>A sequence of legal moves from \<open>s\<close> that ends in \<open>t\<close>.\<close>

definition route :: "State \<Rightarrow> State list \<Rightarrow> State \<Rightarrow> bool" where
  "route s ps t = (path_from s ps \<and> last (s # ps) = t)"

text \<open>
  The invariant of the main loop of \<open>aStar\<close>, in four parts: the entry of the start; the
  entries of the open list; the parent links, along which \<open>gbest\<close> falls; and the
  configurations with a recorded cost, which either have an open node at that cost or
  have been expanded at it (but for the node just popped, \<open>X\<close>).
\<close>

definition inv_start :: "State \<Rightarrow> search \<Rightarrow> bool" where
  "inv_start start st =
     (valid start \<and> gbest st (key start) = Some 0 \<and> parent st (key start) = Some None)"

definition inv_open :: "search \<Rightarrow> bool" where
  "inv_open st =
     (\<forall>m \<in> set (opn st).
        valid (node_s m) \<and> node_f m = node_g m + manhattan (node_s m) \<and>
        (\<exists>b. gbest st (key (node_s m)) = Some b \<and> b \<le> node_g m))"

definition inv_tree :: "State \<Rightarrow> search \<Rightarrow> bool" where
  "inv_tree start st =
     (\<forall>k gk. gbest st k = Some gk \<longrightarrow>
        (\<exists>s. valid s \<and> k = key s \<and>
           (s = start \<or>
            (\<exists>p gp. valid p \<and> s \<in> set (neighbors p) \<and>
                    parent st k = Some (Some (key p)) \<and>
                    gbest st (key p) = Some gp \<and> gp < gk))))"

definition inv_closed :: "(State \<times> nat) set \<Rightarrow> search \<Rightarrow> bool" where
  "inv_closed X st =
     (\<forall>s g. valid s \<and> gbest st (key s) = Some g \<longrightarrow>
        (s, g) \<in> X \<or>
        (\<exists>m \<in> set (opn st). node_s m = s \<and> node_g m = g) \<or>
        (s \<noteq> GOAL \<and> (\<forall>n \<in> set (neighbors s). \<exists>g'. gbest st (key n) = Some g' \<and> g' \<le> g + 1)))"

definition astar_inv :: "State \<Rightarrow> search \<Rightarrow> bool" where
  "astar_inv start st =
     (inv_start start st \<and> inv_open st \<and> inv_tree start st \<and> inv_closed {} st)"

text \<open>
  The termination measure: the number of keys of configurations without a recorded cost,
  then the sum of the recorded costs, then the length of the open list.
\<close>

definition all_keys :: "string set" where
  "all_keys = key ` {s. valid s}"

definition unseen :: "search \<Rightarrow> nat" where
  "unseen st = card (all_keys - dom (gbest st))"

definition cost_sum :: "search \<Rightarrow> nat" where
  "cost_sum st = (\<Sum>k \<in> all_keys \<inter> dom (gbest st). the (gbest st k))"

definition search_less :: "(search \<times> search) set" where
  "search_less =
     inv_image (less_than <*lex*> less_than <*lex*> less_than)
       (\<lambda>st. (unseen st, cost_sum st, length (opn st)))"

text \<open>What the loop returns: \<^verbatim>\<open>null\<close> when no route exists, a shortest route otherwise.\<close>

definition astar_post :: "State \<Rightarrow> State list option \<Rightarrow> bool" where
  "astar_post start r =
     (case r of
        None \<Rightarrow> \<forall>qs. \<not> route start qs GOAL
      | Some p \<Rightarrow> route start p GOAL \<and> (\<forall>qs. route start qs GOAL \<longrightarrow> length p \<le> length qs))"

text \<open>
  Reachability by legal moves, and a sequence of moves given by the offsets of the blank
  (\<open>3\<close> down, \<open>-3\<close> up, \<open>1\<close> right, \<open>-1\<close> left), each checked against \<open>neighbors\<close>.
\<close>

definition reach :: "State \<Rightarrow> State \<Rightarrow> bool" where
  "reach s t = (\<exists>ps. route s ps t)"

fun run :: "State \<Rightarrow> int list \<Rightarrow> State option" where
  "run s [] = Some s"
| "run s (d # ds) =
     (let t = swap s (pos s 0) (pos s 0 + d)
      in if t \<in> set (neighbors s) then run t ds else None)"

text \<open>
  The inversion count as the specification words it: the number of pairs of positions
  \<open>i < j\<close> of a sequence whose entry at \<open>i\<close> is strictly greater than the one at \<open>j\<close>.
\<close>

definition inversion_count :: "int list \<Rightarrow> nat" where
  "inversion_count a = card {(i, j). i < j \<and> j < length a \<and> a ! i > a ! j}"

text \<open>
  A bounded search that certifies a lower bound: \<open>no_short_route n s\<close> holds when no
  sequence of at most \<open>n\<close> legal moves leads from \<open>s\<close> to the goal, found by trying every
  move and cutting a branch where \<open>manhattan\<close> exceeds the moves left.
\<close>

fun no_short_route :: "nat \<Rightarrow> State \<Rightarrow> bool" where
  "no_short_route 0 s = (s \<noteq> GOAL)"
| "no_short_route (Suc k) s =
     (s \<noteq> GOAL \<and> (Suc k < manhattan s \<or> list_all (no_short_route k) (neighbors s)))"

declare reconstruct.simps [code]
declare astar_loop.simps [code]

section \<open>Configurations\<close>

lemma valid_length: "valid s \<Longrightarrow> length s = 9"
  unfolding valid_def by (drule arg_cong [where f = size]) simp

lemma valid_set: "valid s \<Longrightarrow> set s = {0, 1, 2, 3, 4, 5, 6, 7, 8}"
  unfolding valid_def by (drule arg_cong [where f = set_mset]) auto

lemma valid_distinct: "valid s \<Longrightarrow> distinct s"
  using mset_eq_imp_distinct_iff [of s "[0, 1, 2, 3, 4, 5, 6, 7, 8]"]
  by (simp add: valid_def)

lemma indexOf_notin: "v \<notin> set xs \<Longrightarrow> indexOf xs v = - 1"
  by (induction xs) auto

lemma indexOf_range: "v \<in> set xs \<Longrightarrow> 0 \<le> indexOf xs v \<and> indexOf xs v < int (length xs)"
  by (induction xs) (auto simp: Let_def)

lemma indexOf_nth: "v \<in> set xs \<Longrightarrow> xs ! nat (indexOf xs v) = v"
  by (induction xs) (auto simp: Let_def nat_add_distrib dest: indexOf_range)

lemma indexOf_unique:
  "distinct xs \<Longrightarrow> i < length xs \<Longrightarrow> indexOf xs (xs ! i) = int i"
proof (induction xs arbitrary: i)
  case Nil
  then show ?case by simp
next
  case (Cons x xs)
  show ?case
  proof (cases i)
    case 0
    then show ?thesis by simp
  next
    case (Suc k)
    with Cons.prems have k: "k < length xs" and d: "distinct xs" and nx: "xs ! k \<noteq> x"
      by auto
    from Cons.IH [OF d k] show ?thesis using Suc nx by (simp add: Let_def)
  qed
qed

lemma mset_swap_State:
  "0 \<le> i \<Longrightarrow> i < int (length t) \<Longrightarrow> 0 \<le> j \<Longrightarrow> j < int (length t) \<Longrightarrow>
   mset (swap t i j) = mset t"
  unfolding swap_def by (simp add: mset_swap)

lemma valid_swap:
  "valid s \<Longrightarrow> 0 \<le> i \<Longrightarrow> i \<le> 8 \<Longrightarrow> 0 \<le> j \<Longrightarrow> j \<le> 8 \<Longrightarrow> valid (swap s i j)"
  using mset_swap_State [of i s j] valid_length [of s] by (simp add: valid_def)

lemma valid_pos0: "valid s \<Longrightarrow> 0 \<le> pos s 0 \<and> pos s 0 \<le> 8 \<and> s ! nat (pos s 0) = 0"
  using indexOf_range [of 0 s] indexOf_nth [of 0 s] valid_set [of s] valid_length [of s]
  by (simp add: pos_def)

section \<open>The move generator\<close>

lemma neighbors_formula:
  assumes "pos s 0 = z" "0 \<le> z" "z \<le> 8"
  shows "neighbors s =
     (if z div 3 < 2 then [swap s z (z + 3)] else []) @
     (if 0 < z div 3 then [swap s z (z - 3)] else []) @
     (if z mod 3 < 2 then [swap s z (z + 1)] else []) @
     (if 0 < z mod 3 then [swap s z (z - 1)] else [])"
proof -
  from assms(2,3)
  have "z = 0 \<or> z = 1 \<or> z = 2 \<or> z = 3 \<or> z = 4 \<or> z = 5 \<or> z = 6 \<or> z = 7 \<or> z = 8"
    by arith
  then show ?thesis
    using assms(1)
    by (elim disjE)
       (simp_all add: neighbors_def neighbors_run_def neighbors_body_def deltas_def js_rem_def)
qed

lemma swap_blank:
  assumes "valid C" "pos C 0 = z" "0 \<le> nz" "nz \<le> 8"
  shows "swap C z nz = C[nat z := C ! nat nz, nat nz := 0]"
  using assms valid_pos0 [of C] by (simp add: swap_def)

lemma swap_blank_neq:
  assumes "valid C" "pos C 0 = z" "0 \<le> a" "a \<le> 8" "0 \<le> b" "b \<le> 8" "a \<noteq> b" "a \<noteq> z"
  shows "swap C z a \<noteq> swap C z b"
proof
  assume eq: "swap C z a = swap C z b"
  have len: "length C = 9" using assms(1) by (rule valid_length)
  have z: "0 \<le> z" "z \<le> 8" "C ! nat z = 0" using valid_pos0 [OF assms(1)] assms(2) by auto
  have "C ! nat a \<noteq> C ! nat z"
    using valid_distinct [OF assms(1)] assms(3,4,8) z len
      nth_eq_iff_index_eq [of C "nat a" "nat z"]
    by simp
  then have nz: "C ! nat a \<noteq> 0" using z by simp
  have "swap C z a ! nat a = 0"
    using z len assms by (simp add: swap_def)
  moreover have "swap C z b ! nat a = (if b = z then C ! nat a else C ! nat a)"
    using z len assms by (auto simp add: swap_def nth_list_update)
  ultimately show False using eq nz by simp
qed

text \<open>
  C5. For a valid configuration \<open>C\<close> with the blank at index \<open>z = pos C 0\<close>:
  \<open>neighbors C\<close> has 2 elements when the blank is at a corner, 3 on an edge and 4 in the
  centre; the candidates come in the order down (\<open>z + 3\<close>), up (\<open>z - 3\<close>), right
  (\<open>z + 1\<close>), left (\<open>z - 1\<close>), each present when it is inside the grid; every element is
  a valid configuration equal to \<open>C\<close> but for the blank and one grid-adjacent cell, which
  are swapped; the elements are pairwise different; and the argument array holds \<open>C\<close>
  when the loop is over.
\<close>

theorem neighbors_spec:
  assumes "valid C"
  shows "(pos C 0 \<in> {0, 2, 6, 8} \<longrightarrow> length (neighbors C) = 2) \<and>
         (pos C 0 \<in> {1, 3, 5, 7} \<longrightarrow> length (neighbors C) = 3) \<and>
         (pos C 0 = 4 \<longrightarrow> length (neighbors C) = 4) \<and>
         neighbors C =
           (if pos C 0 div 3 < 2 then [swap C (pos C 0) (pos C 0 + 3)] else []) @
           (if 0 < pos C 0 div 3 then [swap C (pos C 0) (pos C 0 - 3)] else []) @
           (if pos C 0 mod 3 < 2 then [swap C (pos C 0) (pos C 0 + 1)] else []) @
           (if 0 < pos C 0 mod 3 then [swap C (pos C 0) (pos C 0 - 1)] else []) \<and>
         (\<forall>n \<in> set (neighbors C).
            valid n \<and>
            (\<exists>nz. 0 \<le> nz \<and> nz \<le> 8 \<and>
                  \<bar>pos C 0 div 3 - nz div 3\<bar> + \<bar>pos C 0 mod 3 - nz mod 3\<bar> = 1 \<and>
                  n = C[nat (pos C 0) := C ! nat nz, nat nz := 0])) \<and>
         distinct (neighbors C) \<and>
         fst (neighbors_run C) = C"
proof -
  define z where "z = pos C 0"
  have z: "0 \<le> z" "z \<le> 8" and pz: "pos C 0 = z"
    using valid_pos0 [OF assms] by (simp_all add: z_def)
  have cases: "z = 0 \<or> z = 1 \<or> z = 2 \<or> z = 3 \<or> z = 4 \<or> z = 5 \<or> z = 6 \<or> z = 7 \<or> z = 8"
    using z by arith
  note form = neighbors_formula [OF pz z]
  have len: "(z \<in> {0, 2, 6, 8} \<longrightarrow> length (neighbors C) = 2) \<and>
             (z \<in> {1, 3, 5, 7} \<longrightarrow> length (neighbors C) = 3) \<and>
             (z = 4 \<longrightarrow> length (neighbors C) = 4)"
    using cases by (elim disjE) (simp_all add: form)
  have mem: "valid n \<and> (\<exists>nz. 0 \<le> nz \<and> nz \<le> 8 \<and> \<bar>z div 3 - nz div 3\<bar> + \<bar>z mod 3 - nz mod 3\<bar> = 1 \<and>
                  n = C[nat z := C ! nat nz, nat nz := 0])" if "n \<in> set (neighbors C)" for n
  proof -
    from that obtain nz where nz: "n = swap C z nz" "0 \<le> nz" "nz \<le> 8"
        "\<bar>z div 3 - nz div 3\<bar> + \<bar>z mod 3 - nz mod 3\<bar> = 1"
      using cases unfolding form by (elim disjE) (auto split: if_splits)
    have "valid n" using nz z assms by (simp add: valid_swap)
    moreover have "n = C[nat z := C ! nat nz, nat nz := 0]"
      using swap_blank [OF assms pz nz(2,3)] nz(1) by simp
    ultimately show ?thesis using nz by blast
  qed
  have neq: "swap C z a \<noteq> swap C z b"
    if "0 \<le> a" "a \<le> 8" "0 \<le> b" "b \<le> 8" "a \<noteq> b" "a \<noteq> z" for a b
    using swap_blank_neq [OF assms pz that] .
  have dist: "distinct (neighbors C)"
    using cases neq unfolding form
    by (elim disjE) simp_all
  have unchanged: "fst (neighbors_run C) = C"
    by (simp add: neighbors_run_def neighbors_body_def deltas_def Let_def)
  show ?thesis
    using len form mem dist unchanged unfolding pz by blast
qed

theorem neighbors_spec_witness:
  "valid [8, 1, 2, 7, 0, 3, 6, 5, 4] \<and>
   pos [8, 1, 2, 7, 0, 3, 6, 5, 4] 0 = 4 \<and>
   length (neighbors [8, 1, 2, 7, 0, 3, 6, 5, 4]) = 4 \<and>
   neighbors [8, 1, 2, 7, 0, 3, 6, 5, 4] =
     [[8, 1, 2, 7, 5, 3, 6, 0, 4], [8, 0, 2, 7, 1, 3, 6, 5, 4],
      [8, 1, 2, 7, 3, 0, 6, 5, 4], [8, 1, 2, 0, 7, 3, 6, 5, 4]] \<and>
   distinct (neighbors [8, 1, 2, 7, 0, 3, 6, 5, 4])"
proof -
  have v: "valid [8, 1, 2, 7, 0, 3, 6, 5, 4]" by (simp add: valid_def)
  have p: "pos [8, 1, 2, 7, 0, 3, 6, 5, 4] 0 = 4" by (simp add: pos_def)
  show ?thesis
    using v p neighbors_spec [OF v] by (simp add: swap_def)
qed

section \<open>Click-to-move\<close>

lemma swap_blank_inj:
  assumes "valid C" "pos C 0 = z" "0 \<le> a" "a \<le> 8" "0 \<le> b" "b \<le> 8"
  shows "swap C z a = swap C z b \<longleftrightarrow> a = b"
proof (cases "a = b")
  case True
  then show ?thesis by simp
next
  case False
  show ?thesis
  proof (cases "a = z")
    case True
    with False have "b \<noteq> z" by simp
    from swap_blank_neq [OF assms(1,2,5,6,3,4) _ this] False show ?thesis by auto
  next
    case az: False
    from swap_blank_neq [OF assms(1,2,3,4,5,6) False az] False show ?thesis by simp
  qed
qed

lemma neighbors_member:
  assumes "valid C" "pos C 0 = z" "0 \<le> i" "i \<le> 8"
  shows "swap C z i \<in> set (neighbors C) \<longleftrightarrow>
           (z div 3 < 2 \<and> i = z + 3) \<or> (0 < z div 3 \<and> i = z - 3) \<or>
           (z mod 3 < 2 \<and> i = z + 1) \<or> (0 < z mod 3 \<and> i = z - 1)"
proof -
  have z: "0 \<le> z" "z \<le> 8" using valid_pos0 [OF assms(1)] assms(2) by simp_all
  have inj: "swap C z i = swap C z b \<longleftrightarrow> i = b" if "0 \<le> b" "b \<le> 8" for b
    using swap_blank_inj [OF assms(1,2,3,4) that] .
  have cases: "z = 0 \<or> z = 1 \<or> z = 2 \<or> z = 3 \<or> z = 4 \<or> z = 5 \<or> z = 6 \<or> z = 7 \<or> z = 8"
    using z by arith
  show ?thesis
    using cases inj unfolding neighbors_formula [OF assms(2) z]
    by (elim disjE) simp_all
qed

lemma grid_adjacent_iff:
  assumes "0 \<le> z" "z \<le> 8" "0 \<le> i" "i \<le> 8"
  shows "\<bar>z div 3 - i div 3\<bar> + \<bar>js_rem z 3 - js_rem i 3\<bar> = 1 \<longleftrightarrow>
           (z div 3 < 2 \<and> i = z + 3) \<or> (0 < z div 3 \<and> i = z - 3) \<or>
           (z mod 3 < 2 \<and> i = z + 1) \<or> (0 < z mod 3 \<and> i = z - 1)"
proof -
  have cz: "z = 0 \<or> z = 1 \<or> z = 2 \<or> z = 3 \<or> z = 4 \<or> z = 5 \<or> z = 6 \<or> z = 7 \<or> z = 8"
    using assms by arith
  have ci: "i = 0 \<or> i = 1 \<or> i = 2 \<or> i = 3 \<or> i = 4 \<or> i = 5 \<or> i = 6 \<or> i = 7 \<or> i = 8"
    using assms by arith
  show ?thesis
    using cz ci by (elim disjE) (simp_all add: js_rem_def)
qed

text \<open>
  C9. For a valid configuration \<open>C\<close> and a grid index \<open>i\<close> in 0..8, the guard of
  \<open>tryMove\<close> (Manhattan distance 1 between the blank's cell and cell \<open>i\<close>) holds exactly
  when swapping the blank with cell \<open>i\<close> gives an element of \<open>neighbors C\<close>; when it
  holds (and the UI is not busy) the next state is that element, and otherwise the state
  stays as it is.
\<close>

theorem tryMove_neighbors:
  assumes "valid C" "0 \<le> i" "i \<le> 8"
  shows "(\<bar>pos C 0 div 3 - i div 3\<bar> + \<bar>js_rem (pos C 0) 3 - js_rem i 3\<bar> = 1
            \<longleftrightarrow> swap C (pos C 0) i \<in> set (neighbors C)) \<and>
         tryMove False C i =
           (if swap C (pos C 0) i \<in> set (neighbors C) then swap C (pos C 0) i else C)"
proof -
  have z: "0 \<le> pos C 0" "pos C 0 \<le> 8" using valid_pos0 [OF assms(1)] by simp_all
  have guard: "\<bar>pos C 0 div 3 - i div 3\<bar> + \<bar>js_rem (pos C 0) 3 - js_rem i 3\<bar> = 1
            \<longleftrightarrow> swap C (pos C 0) i \<in> set (neighbors C)"
    unfolding grid_adjacent_iff [OF z assms(2,3)]
      neighbors_member [OF assms(1) refl assms(2,3)] ..
  have "tryMove False C i =
          (if \<bar>pos C 0 div 3 - i div 3\<bar> + \<bar>js_rem (pos C 0) 3 - js_rem i 3\<bar> = 1
           then swap C (pos C 0) i else C)"
    by (simp add: tryMove_def pos_def Let_def)
  with guard show ?thesis by simp
qed

theorem tryMove_neighbors_witness:
  "valid [8, 1, 2, 7, 0, 3, 6, 5, 4] \<and> (0::int) \<le> 5 \<and> (5::int) \<le> 8 \<and>
   swap [8, 1, 2, 7, 0, 3, 6, 5, 4] (pos [8, 1, 2, 7, 0, 3, 6, 5, 4] 0) 5
     \<in> set (neighbors [8, 1, 2, 7, 0, 3, 6, 5, 4]) \<and>
   tryMove False [8, 1, 2, 7, 0, 3, 6, 5, 4] 5 = [8, 1, 2, 7, 3, 0, 6, 5, 4]"
proof -
  have v: "valid [8, 1, 2, 7, 0, 3, 6, 5, 4]" by (simp add: valid_def)
  have p: "pos [8, 1, 2, 7, 0, 3, 6, 5, 4] 0 = 4" by (simp add: pos_def)
  have g: "\<bar>pos [8, 1, 2, 7, 0, 3, 6, 5, 4] 0 div 3 - 5 div 3\<bar> +
           \<bar>js_rem (pos [8, 1, 2, 7, 0, 3, 6, 5, 4] 0) 3 - js_rem 5 3\<bar> = 1"
    by (simp add: p js_rem_def)
  from tryMove_neighbors [OF v, of 5] g
  have "swap [8, 1, 2, 7, 0, 3, 6, 5, 4] (pos [8, 1, 2, 7, 0, 3, 6, 5, 4] 0) 5
          \<in> set (neighbors [8, 1, 2, 7, 0, 3, 6, 5, 4])"
    and "tryMove False [8, 1, 2, 7, 0, 3, 6, 5, 4] 5 =
          swap [8, 1, 2, 7, 0, 3, 6, 5, 4] (pos [8, 1, 2, 7, 0, 3, 6, 5, 4] 0) 5"
    by simp_all
  then show ?thesis using v by (simp add: p swap_def)
qed

section \<open>Inversion parity\<close>

lemma fold_count:
  "fold (\<lambda>j inv. if P j then inv + 1 else inv) js (acc::nat) = acc + length (filter P js)"
  by (induction js arbitrary: acc) auto

lemma drop_as_map_nth: "drop m a = map (nth a) [m..<length a]"
  by (metis drop_map drop_upt map_nth add_0)

lemma inner_loop:
  "fold (\<lambda>j inv. if a ! i > a ! j then inv + 1 else inv) [m..<length a] (acc::nat)
     = acc + below (a ! i) (drop m a)"
proof -
  have "length (filter (\<lambda>j. a ! i > a ! j) [m..<length a])
          = length (filter (\<lambda>y. a ! i > y) (map (nth a) [m..<length a]))"
    by (simp add: filter_map comp_def)
  then show ?thesis
    by (simp add: fold_count below_def drop_as_map_nth [symmetric])
qed

lemma outer_loop:
  "k \<le> length a \<Longrightarrow>
   fold (\<lambda>i inv. fold (\<lambda>j inv. if a ! i > a ! j then inv + 1 else inv) [i + 1..<length a] inv)
        [k..<length a] (acc::nat)
     = acc + inv_count (drop k a)"
proof (induction "length a - k" arbitrary: k acc)
  case 0
  then show ?case by simp
next
  case (Suc d)
  then have k: "k < length a" by simp
  have d: "d = length a - Suc k" using Suc.hyps(2) by simp
  have sk: "Suc k \<le> length a" using k by simp
  have "drop k a = a ! k # drop (Suc k) a"
    using k by (simp add: Cons_nth_drop_Suc)
  then show ?case
    using Suc.hyps(1) [OF d sk] k
    by (simp add: upt_conv_Cons inner_loop)
qed

lemma inversions_inv_count: "inversions s = inv_count (filter (\<lambda>x. x \<noteq> 0) s)"
  using outer_loop [of 0 "filter (\<lambda>x. x \<noteq> 0) s" 0]
  by (simp add: inversions_def Let_def)

lemma below_Nil [simp]: "below x [] = 0"
  by (simp add: below_def)

lemma below_append: "below x (ys @ zs) = below x ys + below x zs"
  by (simp add: below_def)

lemma below_Cons: "below x (y # ys) = (if x > y then 1 else 0) + below x ys"
  by (simp add: below_def)

lemma cross_Nil [simp]: "cross [] ys = 0"
  by (simp add: cross_def)

lemma cross_Cons: "cross (x # xs) ys = below x ys + cross xs ys"
  by (simp add: cross_def)

lemma cross_append_right: "cross xs (ys @ zs) = cross xs ys + cross xs zs"
  by (induction xs) (simp_all add: cross_Cons below_append)

lemma cross_Cons_right: "cross xs (y # ys) = cross xs [y] + cross xs ys"
  using cross_append_right [of xs "[y]" ys] by simp

lemma inv_count_append: "inv_count (xs @ ys) = inv_count xs + cross xs ys + inv_count ys"
  by (induction xs) (simp_all add: cross_Cons below_append)

lemma below_cross_single: "y \<notin> set ms \<Longrightarrow> below y ms + cross ms [y] = length ms"
  by (induction ms) (auto simp: below_Cons cross_Cons)

lemma move_parity:
  assumes "y \<notin> set ms"
  shows "(inv_count (ps @ ms @ y # ss) + inv_count (ps @ y # ms @ ss)) mod 2 = length ms mod 2"
proof -
  define K where "K = inv_count ps + cross ps ms + cross ps [y] + cross ps ss + inv_count ms +
             cross ms ss + below y ss + inv_count ss"
  have a: "inv_count (ps @ ms @ y # ss) =
        inv_count ps + (cross ps ms + cross ps [y] + cross ps ss) +
        (inv_count ms + (cross ms [y] + cross ms ss) + (below y ss + inv_count ss))"
    by (simp add: inv_count_append cross_append_right cross_Cons_right [of _ y ss])
  have b: "inv_count (ps @ y # ms @ ss) =
        inv_count ps + (cross ps [y] + cross ps ms + cross ps ss) +
        (below y ms + below y ss + (inv_count ms + cross ms ss + inv_count ss))"
    by (simp add: inv_count_append cross_append_right cross_Cons_right [of _ y "ms @ ss"]
        below_append)
  have "inv_count (ps @ ms @ y # ss) + inv_count (ps @ y # ms @ ss) =
        2 * K + (below y ms + cross ms [y])"
    unfolding a b K_def by simp
  then have "inv_count (ps @ ms @ y # ss) + inv_count (ps @ y # ms @ ss) = 2 * K + length ms"
    using below_cross_single [OF assms] by simp
  then show ?thesis
    by (simp only: mod_mult_self4)
qed

lemma swap_parity:
  assumes "x \<notin> set ms" "y \<notin> set ms" "x \<noteq> y"
  shows "(inv_count (ps @ x # ms @ y # ss) + inv_count (ps @ y # ms @ x # ss)) mod 2 = 1"
proof -
  define K where "K = inv_count ps + cross ps [x] + cross ps ms + cross ps [y] + cross ps ss +
             below x ss + below y ss + inv_count ms + cross ms ss + inv_count ss"
  have xy: "below x [y] + below y [x] = 1"
    using assms(3) by (auto simp: below_def)
  have a: "inv_count (ps @ x # ms @ y # ss) =
        inv_count ps + (cross ps [x] + cross ps ms + cross ps [y] + cross ps ss) +
        (below x ms + below x [y] + below x ss +
         (inv_count ms + (cross ms [y] + cross ms ss) + (below y ss + inv_count ss)))"
    by (simp add: inv_count_append cross_append_right cross_Cons_right [of _ y ss]
        cross_Cons_right [of _ x "ms @ y # ss"] below_append below_Cons [of x y ss] below_def [of x "[y]"])
  have b: "inv_count (ps @ y # ms @ x # ss) =
        inv_count ps + (cross ps [y] + cross ps ms + cross ps [x] + cross ps ss) +
        (below y ms + below y [x] + below y ss +
         (inv_count ms + (cross ms [x] + cross ms ss) + (below x ss + inv_count ss)))"
    by (simp add: inv_count_append cross_append_right cross_Cons_right [of _ x ss]
        cross_Cons_right [of _ y "ms @ x # ss"] below_append below_Cons [of y x ss] below_def [of y "[x]"])
  have "inv_count (ps @ x # ms @ y # ss) + inv_count (ps @ y # ms @ x # ss) =
        2 * K + (below x ms + cross ms [x]) + (below y ms + cross ms [y]) + (below x [y] + below y [x])"
    unfolding a b K_def by simp
  then have "inv_count (ps @ x # ms @ y # ss) + inv_count (ps @ y # ms @ x # ss) =
        2 * (K + length ms) + 1"
    using below_cross_single [OF assms(1)] below_cross_single [OF assms(2)] xy by simp
  then show ?thesis
    by (simp only: mod_mult_self4) simp
qed

lemma update2_append:
  "(ps @ x # ms @ y # ss)[length ps := y', Suc (length ps + length ms) := x']
     = ps @ y' # ms @ x' # ss"
proof -
  have "(ps @ x # ms @ y # ss)[length ps := y'] = ps @ y' # ms @ y # ss"
    by simp
  moreover have "(ps @ y' # ms @ y # ss)[Suc (length ps + length ms) := x']
      = ps @ (y' # ms @ y # ss)[Suc (length ms) := x']"
    by (simp add: list_update_append)
  moreover have "(y' # ms @ y # ss)[Suc (length ms) := x'] = y' # ms @ x' # ss"
    by simp
  ultimately show ?thesis by simp
qed

lemma swap_decomp:
  assumes "i < j" "j < length s"
  obtains ps ms ss where "s = ps @ s ! i # ms @ s ! j # ss" "length ps = i"
    "length ms = j - i - 1" "s[i := s ! j, j := s ! i] = ps @ s ! j # ms @ s ! i # ss"
proof -
  define ps where "ps = take i s"
  define ms where "ms = take (j - i - 1) (drop (Suc i) s)"
  define ss where "ss = drop (Suc j) s"
  have i: "i < length s" using assms by simp
  have 1: "s = ps @ s ! i # drop (Suc i) s"
    unfolding ps_def using i by (simp add: id_take_nth_drop [symmetric])
  have j': "j - i - 1 < length (drop (Suc i) s)" using assms by simp
  have nth: "drop (Suc i) s ! (j - i - 1) = s ! j" using assms by simp
  have "drop (Suc (j - i - 1)) (drop (Suc i) s) = ss"
    unfolding ss_def using assms by simp
  with id_take_nth_drop [OF j'] nth
  have 2: "drop (Suc i) s = ms @ s ! j # ss"
    unfolding ms_def by simp
  have s: "s = ps @ s ! i # ms @ s ! j # ss" using 1 2 by simp
  have lp: "length ps = i" unfolding ps_def using i by simp
  have lm: "length ms = j - i - 1" unfolding ms_def using assms by simp
  have "j = Suc (length ps + length ms)" using lp lm assms(1) by simp
  with update2_append [of ps "s ! i" ms "s ! j" ss "s ! j" "s ! i"] lp
  have "(ps @ s ! i # ms @ s ! j # ss)[i := s ! j, j := s ! i] = ps @ s ! j # ms @ s ! i # ss"
    by simp
  with s have "s[i := s ! j, j := s ! i] = ps @ s ! j # ms @ s ! i # ss" by simp
  with s lp lm show thesis by (rule that)
qed

lemma inversions_swap_tiles:
  assumes "distinct s" "i < j" "j < length s" "s ! i \<noteq> 0" "s ! j \<noteq> 0"
  shows "(inversions s + inversions (s[i := s ! j, j := s ! i])) mod 2 = 1"
proof -
  obtain ps ms ss where d: "s = ps @ s ! i # ms @ s ! j # ss"
      "s[i := s ! j, j := s ! i] = ps @ s ! j # ms @ s ! i # ss"
    using swap_decomp [OF assms(2,3)] by blast
  define x where "x = s ! i"
  define y where "y = s ! j"
  have s: "s = ps @ x # ms @ y # ss" and t: "s[i := s ! j, j := s ! i] = ps @ y # ms @ x # ss"
    using d by (simp_all add: x_def y_def)
  have xy: "x \<noteq> 0" "y \<noteq> 0" using assms(4,5) by (simp_all add: x_def y_def)
  have dis: "x \<notin> set ms" "y \<notin> set ms" "x \<noteq> y"
    using assms(1) unfolding s by auto
  let ?F = "filter (\<lambda>v. v \<noteq> 0)"
  have "x \<notin> set (?F ms)" "y \<notin> set (?F ms)" using dis by auto
  from swap_parity [OF this dis(3), of "?F ps" "?F ss"]
  show ?thesis
    unfolding t unfolding s using xy by (simp add: inversions_inv_count)
qed

lemma inversions_move_blank:
  assumes "distinct s" "i < j" "j < length s" "s ! i = 0 \<or> s ! j = 0"
  shows "(inversions s + inversions (s[i := s ! j, j := s ! i])) mod 2 = (j - i - 1) mod 2"
proof -
  obtain ps ms ss where d: "s = ps @ s ! i # ms @ s ! j # ss" "length ms = j - i - 1"
      "s[i := s ! j, j := s ! i] = ps @ s ! j # ms @ s ! i # ss"
    using swap_decomp [OF assms(2,3)] by blast
  define x where "x = s ! i"
  define y where "y = s ! j"
  have s: "s = ps @ x # ms @ y # ss" and t: "s[i := s ! j, j := s ! i] = ps @ y # ms @ x # ss"
    using d by (simp_all add: x_def y_def)
  have dis: "x \<notin> set ms" "y \<notin> set ms" "x \<noteq> y"
    using assms(1) unfolding s by auto
  let ?F = "filter (\<lambda>v. v \<noteq> 0)"
  have zero: "x = 0 \<or> y = 0" using assms(4) by (simp add: x_def y_def)
  then have "0 \<notin> set ms" using dis by auto
  then have F: "?F ms = ms" by (auto simp: filter_id_conv)
  from zero show ?thesis
  proof
    assume x0: "x = 0"
    then have y0: "y \<noteq> 0" using dis by simp
    from move_parity [OF dis(2), of "?F ps" "?F ss"]
    show ?thesis
      unfolding t unfolding s using x0 y0 F d(2) by (simp add: inversions_inv_count)
  next
    assume y0: "y = 0"
    then have x0: "x \<noteq> 0" using dis by simp
    from move_parity [OF dis(1), of "?F ps" "?F ss"]
    show ?thesis
      unfolding t unfolding s using x0 y0 F d(2) by (simp add: inversions_inv_count add.commute)
  qed
qed

lemma swap_commute: "nat i < length t \<Longrightarrow> nat j < length t \<Longrightarrow> swap t i j = swap t j i"
  by (cases "nat i = nat j") (simp_all add: swap_def list_update_swap)

lemma neighbors_cases:
  assumes "valid C" "n \<in> set (neighbors C)"
  obtains nz where "n = swap C (pos C 0) nz" "0 \<le> nz" "nz \<le> 8"
    "nz = pos C 0 + 3 \<or> nz = pos C 0 - 3 \<or> nz = pos C 0 + 1 \<or> nz = pos C 0 - 1"
proof -
  define z where "z = pos C 0"
  have z: "0 \<le> z" "z \<le> 8" and pz: "pos C 0 = z"
    using valid_pos0 [OF assms(1)] by (simp_all add: z_def)
  have cases: "z = 0 \<or> z = 1 \<or> z = 2 \<or> z = 3 \<or> z = 4 \<or> z = 5 \<or> z = 6 \<or> z = 7 \<or> z = 8"
    using z by arith
  have "\<exists>nz. n = swap C z nz \<and> 0 \<le> nz \<and> nz \<le> 8 \<and>
          (nz = z + 3 \<or> nz = z - 3 \<or> nz = z + 1 \<or> nz = z - 1)"
    using cases assms(2) unfolding neighbors_formula [OF pz z]
    by (elim disjE) auto
  then show thesis using that unfolding pz by blast
qed

lemma neighbor_parity:
  assumes "valid C" "n \<in> set (neighbors C)"
  shows "inversions n mod 2 = inversions C mod 2"
proof -
  define z where "z = pos C 0"
  have z: "0 \<le> z" "z \<le> 8" "C ! nat z = 0" and pz: "pos C 0 = z"
    using valid_pos0 [OF assms(1)] by (simp_all add: z_def)
  have len: "length C = 9" and dis: "distinct C"
    using assms(1) by (simp_all add: valid_length valid_distinct)
  obtain nz where nz: "n = swap C z nz" "0 \<le> nz" "nz \<le> 8"
      "nz = z + 3 \<or> nz = z - 3 \<or> nz = z + 1 \<or> nz = z - 1"
    using neighbors_cases [OF assms] unfolding pz by blast
  have even: "(inversions C + inversions n) mod 2 = 0"
  proof (cases "z < nz")
    case True
    then have lt: "nat z < nat nz" "nat nz < length C" using z nz len by simp_all
    have "nat nz - nat z - 1 = 0 \<or> nat nz - nat z - 1 = 2" using nz(4) True z by auto
    with inversions_move_blank [OF dis lt] z(3) show ?thesis
      unfolding nz(1) swap_def by auto
  next
    case False
    then have lt: "nat nz < nat z" "nat z < length C" using z nz len by auto
    have "nat z - nat nz - 1 = 0 \<or> nat z - nat nz - 1 = 2" using nz(4) False z nz(2) by auto
    moreover have "n = C[nat nz := C ! nat z, nat z := C ! nat nz]"
      using swap_commute [of z C nz] lt unfolding nz(1) by (simp add: swap_def)
    ultimately show ?thesis
      using inversions_move_blank [OF dis lt] z(3) by auto
  qed
  then show ?thesis by presburger
qed

lemma valid_neighbors:
  assumes "valid C" "n \<in> set (neighbors C)"
  shows "valid n"
proof -
  obtain nz where "n = swap C (pos C 0) nz" "0 \<le> nz" "nz \<le> 8"
    using neighbors_cases [OF assms] by blast
  then show ?thesis
    using valid_pos0 [OF assms(1)] assms(1) by (simp add: valid_swap)
qed

lemma neighbor_solvable:
  "valid C \<Longrightarrow> n \<in> set (neighbors C) \<Longrightarrow> isSolvable n = isSolvable C"
  by (simp add: isSolvable_def neighbor_parity)

lemma path_valid: "valid C \<Longrightarrow> path_from C ps \<Longrightarrow> p \<in> set ps \<Longrightarrow> valid p"
  by (induction ps arbitrary: C) (auto dest: valid_neighbors)

lemma path_solvable:
  "valid C \<Longrightarrow> path_from C ps \<Longrightarrow> p \<in> set ps \<Longrightarrow> isSolvable p = isSolvable C"
proof (induction ps arbitrary: C)
  case Nil
  then show ?case by simp
next
  case (Cons q qs)
  then have q: "q \<in> set (neighbors C)" and rest: "path_from q qs" by simp_all
  have vq: "valid q" using Cons.prems(1) q by (rule valid_neighbors)
  have sq: "isSolvable q = isSolvable C" using Cons.prems(1) q by (rule neighbor_solvable)
  consider "p = q" | "p \<in> set qs" using Cons.prems(3) by auto
  then show ?case
  proof cases
    case 1
    with sq show ?thesis by simp
  next
    case 2
    with Cons.IH [OF vq rest] sq show ?thesis by simp
  qed
qed

lemma tryMove_result:
  assumes "valid C" "0 \<le> i" "i \<le> 8"
  shows "tryMove b C i = C \<or> tryMove b C i \<in> set (neighbors C)"
proof -
  have z: "0 \<le> pos C 0" "pos C 0 \<le> 8" using valid_pos0 [OF assms(1)] by simp_all
  show ?thesis
    using grid_adjacent_iff [OF z assms(2,3)] neighbors_member [OF assms(1) refl assms(2,3)]
    by (auto simp: tryMove_def pos_def Let_def)
qed

section \<open>The double loop of inversions counts the inverted pairs\<close>

lemma finite_inversion_pairs: "finite {(i, j). i < j \<and> j < length a \<and> a ! i > a ! j}"
proof -
  have "{(i, j). i < j \<and> j < length a \<and> a ! i > a ! j} \<subseteq> {..<length a} \<times> {..<length a}"
    by auto
  then show ?thesis by (rule finite_subset) simp
qed

lemma inversion_pairs_Cons:
  "{(i, j). i < j \<and> j < length (x # xs) \<and> (x # xs) ! i > (x # xs) ! j} =
     (\<lambda>j. (0, Suc j)) ` {j. j < length xs \<and> x > xs ! j} \<union>
     (\<lambda>(i, j). (Suc i, Suc j)) ` {(i, j). i < j \<and> j < length xs \<and> xs ! i > xs ! j}"
  (is "?L = ?A \<union> ?B")
proof (intro set_eqI iffI)
  fix p assume "p \<in> ?L"
  then obtain i j where p: "p = (i, j)" "i < j" "j < Suc (length xs)" "(x # xs) ! i > (x # xs) ! j"
    by auto
  then obtain j' where j': "j = Suc j'" by (cases j) auto
  show "p \<in> ?A \<union> ?B"
  proof (cases i)
    case 0
    then have "p \<in> ?A" using p j' by auto
    then show ?thesis by simp
  next
    case (Suc i')
    then have "(i', j') \<in> {(i, j). i < j \<and> j < length xs \<and> xs ! i > xs ! j}"
      using p j' by auto
    then have "p \<in> ?B" using p(1) j' Suc by (auto simp: image_iff)
    then show ?thesis by simp
  qed
next
  fix p assume "p \<in> ?A \<union> ?B"
  then show "p \<in> ?L" by auto
qed

lemma inv_count_inversion_count: "inv_count a = inversion_count a"
proof (induction a)
  case Nil
  then show ?case by (simp add: inversion_count_def)
next
  case (Cons x xs)
  let ?A = "(\<lambda>j. (0::nat, Suc j)) ` {j. j < length xs \<and> x > xs ! j}"
  let ?P = "{(i, j). i < j \<and> j < length xs \<and> xs ! i > xs ! j}"
  let ?B = "(\<lambda>(i, j). (Suc i, Suc j)) ` ?P"
  have fa: "finite ?A" by simp
  have fb: "finite ?B" using finite_inversion_pairs [of xs] by simp
  have dis: "?A \<inter> ?B = {}" by auto
  have ca: "card ?A = below x xs"
    by (simp add: card_image inj_on_def below_def length_filter_conv_card)
  have "inj_on (\<lambda>(i, j). (Suc i, Suc j)) ?P" by (auto simp: inj_on_def)
  then have cb: "card ?B = inversion_count xs"
    by (simp add: card_image inversion_count_def)
  have "inversion_count (x # xs) = card (?A \<union> ?B)"
    unfolding inversion_count_def inversion_pairs_Cons ..
  also have "\<dots> = card ?A + card ?B" using fa fb dis by (rule card_Un_disjoint)
  finally show ?case using ca cb Cons.IH by simp
qed

lemma inversions_inversion_count:
  "inversions s = inversion_count (filter (\<lambda>x. x \<noteq> 0) s)"
  by (simp add: inversions_inv_count inv_count_inversion_count)

section \<open>The scramble\<close>

lemma shuffle_index:
  assumes "0 \<le> r" "r < 1"
  shows "0 \<le> \<lfloor>r * (real i + 1)\<rfloor> \<and> \<lfloor>r * (real i + 1)\<rfloor> \<le> int i"
proof -
  have "r * (real i + 1) < real i + 1"
    using assms by (simp add: mult_less_cancel_right1)
  then have "r * (real i + 1) < of_int (int i + 1)" by simp
  then have "\<lfloor>r * (real i + 1)\<rfloor> < int i + 1"
    by (simp only: floor_less_iff)
  then have up: "\<lfloor>r * (real i + 1)\<rfloor> \<le> int i" by linarith
  have "0 \<le> r * (real i + 1)" using assms by simp
  then have "0 \<le> \<lfloor>r * (real i + 1)\<rfloor>" by (simp only: zero_le_floor)
  with up show ?thesis by simp
qed

lemma shuffle_index_onto:
  assumes "0 \<le> j" "j \<le> int i"
  shows "\<exists>r. 0 \<le> r \<and> r < 1 \<and> \<lfloor>r * (real i + 1)\<rfloor> = j"
proof -
  define r where "r = real_of_int j / (real i + 1)"
  have pos: "0 < real i + 1" by simp
  have "r * (real i + 1) = real_of_int j" using pos by (simp add: r_def)
  then have "\<lfloor>r * (real i + 1)\<rfloor> = j" by simp
  moreover have "0 \<le> r" using assms(1) pos by (simp add: r_def)
  moreover have "real_of_int j < real i + 1" using assms(2) by linarith
  then have "r < 1" using pos by (simp add: r_def)
  ultimately show ?thesis by blast
qed

lemma shuffle_fold_valid:
  assumes "\<forall>k. 0 \<le> rnd k \<and> rnd k < 1"
  shows "valid a \<Longrightarrow> \<forall>i \<in> set is. i \<le> 8 \<Longrightarrow> valid (fst (fold (shuffle_body rnd) is (a, k)))"
proof (induction "is" arbitrary: a k)
  case Nil
  then show ?case by simp
next
  case (Cons i "is")
  have i8: "int i \<le> 8" using Cons.prems(2) by simp
  have "0 \<le> rnd k" "rnd k < 1" using assms by simp_all
  from shuffle_index [OF this, of i]
  have j: "0 \<le> \<lfloor>rnd k * (real i + 1)\<rfloor>" "\<lfloor>rnd k * (real i + 1)\<rfloor> \<le> 8"
    using i8 by linarith+
  have "valid (swap a (int i) \<lfloor>rnd k * (real i + 1)\<rfloor>)"
    using Cons.prems(1) _ i8 j by (rule valid_swap) simp
  with Cons.IH [of _ "k + 1"] Cons.prems(2) show ?case
    by (simp add: shuffle_body_def)
qed

lemma repair_parity:
  assumes "valid a"
  shows "valid (swap a (indexOf a 1) (indexOf a 2)) \<and>
         (inversions a + inversions (swap a (indexOf a 1) (indexOf a 2))) mod 2 = 1"
proof -
  define i where "i = indexOf a 1"
  define j where "j = indexOf a 2"
  have len: "length a = 9" and dis: "distinct a" and set: "set a = {0, 1, 2, 3, 4, 5, 6, 7, 8}"
    using assms by (simp_all add: valid_length valid_distinct valid_set)
  have i: "0 \<le> i" "i \<le> 8" "a ! nat i = 1"
    using indexOf_range [of 1 a] indexOf_nth [of 1 a] set len by (simp_all add: i_def)
  have j: "0 \<le> j" "j \<le> 8" "a ! nat j = 2"
    using indexOf_range [of 2 a] indexOf_nth [of 2 a] set len by (simp_all add: j_def)
  have ne: "i \<noteq> j" using i(3) j(3) by auto
  have v: "valid (swap a i j)" using assms i j by (simp add: valid_swap)
  have "(inversions a + inversions (swap a i j)) mod 2 = 1"
  proof (cases "i < j")
    case True
    then have "nat i < nat j" "nat j < length a" using i j len by simp_all
    from inversions_swap_tiles [OF dis this] i(3) j(3) show ?thesis
      by (simp add: swap_def)
  next
    case False
    with ne have lt: "nat j < nat i" "nat i < length a" using i j len by simp_all
    have "swap a i j = a[nat j := a ! nat i, nat i := a ! nat j]"
      using swap_commute [of i a j] lt by (simp add: swap_def)
    with inversions_swap_tiles [OF dis lt] i(3) j(3) show ?thesis
      by simp
  qed
  with v show ?thesis by (simp add: i_def j_def)
qed

text \<open>
  C3. Whatever numbers in \<open>[0, 1)\<close> the random source returns, \<open>shuffleSolvable\<close> returns a
  valid configuration that satisfies \<open>isSolvable\<close>: the Fisher-Yates loop only swaps cells
  of the array, and when its result has odd inversion parity, the swap of the tiles
  labelled 1 and 2 makes it even.
\<close>

theorem shuffleSolvable_solvable:
  assumes "\<forall>k. 0 \<le> rnd k \<and> rnd k < 1"
  shows "valid (shuffleSolvable rnd) \<and> isSolvable (shuffleSolvable rnd)"
proof -
  define a where "a = fst (fold (shuffle_body rnd) (rev [1..<length GOAL]) (GOAL, 0))"
  have "valid GOAL" by (simp add: valid_def GOAL_def)
  then have va: "valid a"
    unfolding a_def by (rule shuffle_fold_valid [OF assms]) (simp add: GOAL_def)
  have eq: "shuffleSolvable rnd =
      (if \<not> isSolvable a then swap a (indexOf a 1) (indexOf a 2) else a)"
    unfolding shuffleSolvable_def a_def Let_def ..
  show ?thesis
  proof (cases "isSolvable a")
    case True
    then show ?thesis using va by (simp add: eq)
  next
    case False
    then have "inversions a mod 2 = 1" by (simp add: isSolvable_def)
    have odd: "inversions a mod 2 = 1" by fact
    have v': "valid (swap a (indexOf a 1) (indexOf a 2))"
      using repair_parity [OF va] by simp
    have "(inversions a + inversions (swap a (indexOf a 1) (indexOf a 2))) mod 2 = 1"
      using repair_parity [OF va] by simp
    with odd have "inversions (swap a (indexOf a 1) (indexOf a 2)) mod 2 = 0"
      by presburger
    with False v' show ?thesis
      by (simp add: eq isSolvable_def)
  qed
qed

theorem shuffleSolvable_solvable_witness:
  "shuffleSolvable (\<lambda>k. 1 / 2) = [1, 6, 2, 8, 3, 7, 4, 0, 5] \<and>
   valid (shuffleSolvable (\<lambda>k. 1 / 2)) \<and> isSolvable (shuffleSolvable (\<lambda>k. 1 / 2))"
proof -
  have r: "\<forall>k::nat. (0::real) \<le> 1 / 2 \<and> (1::real) / 2 < 1" by simp
  have "shuffleSolvable (\<lambda>k. 1 / 2) = [1, 6, 2, 8, 3, 7, 4, 0, 5]"
    by (simp add: shuffleSolvable_def shuffle_body_def GOAL_def swap_def isSolvable_def
        inversions_def upt_rec)
  with shuffleSolvable_solvable [OF r] show ?thesis by simp
qed

section \<open>Keys\<close>

lemma show_num_digit: "0 \<le> x \<Longrightarrow> x \<le> 9 \<Longrightarrow> show_num x = [digit_char (nat x)]"
  by (simp add: show_num_def)

lemma digit_char_not_comma: "n \<le> 9 \<Longrightarrow> digit_char n \<noteq> CHR '',''"
proof
  assume n: "n \<le> 9" and "digit_char n = CHR '',''"
  then have "(of_char (digit_char n) :: nat) = of_char CHR '',''" by simp
  with n show False by (simp add: digit_char_def)
qed

lemma digit_char_not_minus: "n \<le> 9 \<Longrightarrow> digit_char n \<noteq> CHR ''-''"
proof
  assume n: "n \<le> 9" and "digit_char n = CHR ''-''"
  then have "(of_char (digit_char n) :: nat) = of_char CHR ''-''" by simp
  with n show False by (simp add: digit_char_def)
qed

lemma digit_val_digit_char: "n \<le> 9 \<Longrightarrow> digit_val (digit_char n) = n"
proof -
  assume "n \<le> 9"
  then have "n \<in> {0, 1, 2, 3, 4, 5, 6, 7, 8, 9}" by auto
  then show ?thesis by (auto simp: digit_char_def digit_val_def)
qed

lemma Number_of_digit: "n \<le> 9 \<Longrightarrow> Number_of [digit_char n] = int n"
  by (simp add: Number_of_def digit_char_not_minus digit_val_digit_char)

lemma split_not_Nil: "split c xs \<noteq> []"
  by (induction xs) (auto split: list.splits)

lemma key_Cons2:
  "0 \<le> x \<Longrightarrow> x \<le> 9 \<Longrightarrow> key (x # y # ys) = digit_char (nat x) # CHR '','' # key (y # ys)"
  by (simp add: key_def show_num_digit)

lemma key_single: "0 \<le> x \<Longrightarrow> x \<le> 9 \<Longrightarrow> key [x] = [digit_char (nat x)]"
  by (simp add: key_def show_num_digit)

lemma unkey_key: "s \<noteq> [] \<Longrightarrow> digits s \<Longrightarrow> unkey (key s) = s"
proof (induction s rule: induct_list012)
  case 1
  then show ?case by simp
next
  case (2 x)
  then have x: "0 \<le> x" "x \<le> 9" by (simp_all add: digits_def)
  then have n: "nat x \<le> 9" by simp
  show ?case
    using x by (simp add: key_single unkey_def digit_char_not_comma [OF n] Number_of_digit [OF n])
next
  case (3 x y ys)
  then have x: "0 \<le> x" "x \<le> 9" and d: "digits (y # ys)" by (simp_all add: digits_def)
  then have n: "nat x \<le> 9" by simp
  have "unkey (key (y # ys)) = y # ys" using 3 d by simp
  then show ?case
    using x
    by (simp add: key_Cons2 unkey_def digit_char_not_comma [OF n] Number_of_digit [OF n]
        split_not_Nil split: list.splits)
qed

lemma valid_digits: "valid s \<Longrightarrow> digits s"
  by (auto simp: digits_def dest!: valid_set)

lemma valid_not_Nil: "valid s \<Longrightarrow> s \<noteq> []"
  by (auto dest: valid_length)

lemma unkey_key_valid: "valid s \<Longrightarrow> unkey (key s) = s"
  by (simp add: unkey_key valid_digits valid_not_Nil)

lemma key_inj: "valid s \<Longrightarrow> valid t \<Longrightarrow> key s = key t \<longleftrightarrow> s = t"
  by (metis unkey_key_valid)

lemma key_not_Nil: "valid s \<Longrightarrow> key s \<noteq> []"
proof -
  assume v: "valid s"
  then obtain x xs where s: "s = x # xs" by (cases s) (auto dest: valid_length)
  have x: "0 \<le> x" "x \<le> 9" using valid_digits [OF v] by (simp_all add: digits_def s)
  show ?thesis
    using x by (cases xs) (simp_all add: s key_single key_Cons2)
qed

section \<open>popMin\<close>

lemma popMin_scan:
  assumes "mi < length ns" "\<forall>i \<in> set is. i < length ns"
  shows "fold (\<lambda>i mi. if node_f (ns ! i) < node_f (ns ! mi) then i else mi) is mi < length ns \<and>
         node_f (ns ! fold (\<lambda>i mi. if node_f (ns ! i) < node_f (ns ! mi) then i else mi) is mi)
            \<le> node_f (ns ! mi) \<and>
         (\<forall>i \<in> set is. node_f (ns ! fold (\<lambda>i mi. if node_f (ns ! i) < node_f (ns ! mi) then i else mi) is mi)
            \<le> node_f (ns ! i))"
  using assms
proof (induction "is" arbitrary: mi)
  case Nil
  then show ?case by simp
next
  case (Cons i "is")
  let ?mi = "if node_f (ns ! i) < node_f (ns ! mi) then i else mi"
  have mi': "?mi < length ns" using Cons.prems by simp
  have is': "\<forall>i \<in> set is. i < length ns" using Cons.prems by simp
  from Cons.IH [OF mi' is'] show ?case
    by (auto split: if_splits)
qed

lemma popMin_props:
  assumes "ns \<noteq> []" "popMin ns = (n, rest)"
  shows "n \<in> set ns" "\<forall>m \<in> set ns. node_f n \<le> node_f m"
    "mset ns = add_mset n (mset rest)"
proof -
  define mi where "mi = fold (\<lambda>i mi. if node_f (ns ! i) < node_f (ns ! mi) then i else mi)
                    [1..<length ns] 0"
  have 0: "0 < length ns" using assms(1) by simp
  have "\<forall>i \<in> set [1..<length ns]. i < length ns" by simp
  from popMin_scan [OF 0 this] have mi: "mi < length ns"
    and le0: "node_f (ns ! mi) \<le> node_f (ns ! 0)"
    and le: "\<forall>i \<in> set [1..<length ns]. node_f (ns ! mi) \<le> node_f (ns ! i)"
    unfolding mi_def by blast+
  have n: "n = ns ! mi" and rest: "rest = take mi ns @ drop (Suc mi) ns"
    using assms(2) by (simp_all add: popMin_def Let_def mi_def)
  show "n \<in> set ns" using mi n by simp
  show "\<forall>m \<in> set ns. node_f n \<le> node_f m"
  proof
    fix m assume "m \<in> set ns"
    then obtain i where i: "i < length ns" "m = ns ! i" by (auto simp: in_set_conv_nth)
    show "node_f n \<le> node_f m"
    proof (cases "i = 0")
      case True
      with le0 i n show ?thesis by simp
    next
      case False
      with i have "i \<in> set [1..<length ns]" by simp
      with le i n show ?thesis by blast
    qed
  qed
  have "ns = take mi ns @ ns ! mi # drop (Suc mi) ns"
    using mi by (rule id_take_nth_drop)
  then have "mset ns = mset (take mi ns @ ns ! mi # drop (Suc mi) ns)" by simp
  then show "mset ns = add_mset n (mset rest)"
    by (simp add: n rest)
qed

section \<open>The heuristic\<close>

lemma fold_add_sum_list:
  "fold (\<lambda>v d. d + t v) xs (a::nat) = a + sum_list (map t xs)"
  by (induction xs arbitrary: a) simp_all

lemma manhattan_sum: "manhattan s = sum_list (map (tile_dist s) [1..8])"
  using fold_add_sum_list [of "tile_dist s" "[1..8]" 0]
  by (simp add: manhattan_def tile_dist_def Let_def)

lemma upto_1_8: "[1..8] = [1, 2, 3, 4, 5, 6, 7, 8::int]"
  using upto_rec1 [of 1 8] by (simp add: upto_rec_numeral)

lemma manhattan_GOAL: "manhattan GOAL = 0"
  by (simp add: manhattan_sum upto_1_8 tile_dist_def pos_def GOAL_def js_rem_def)

lemma sum_list_one_off:
  fixes f g :: "int \<Rightarrow> nat"
  assumes "\<forall>v \<in> set xs. v \<noteq> w \<longrightarrow> f v = g v" "f w \<le> g w + 1" "distinct xs"
  shows "sum_list (map f xs) \<le> sum_list (map g xs) + (if w \<in> set xs then 1 else 0)"
  using assms
proof (induction xs)
  case Nil
  then show ?case by simp
next
  case (Cons x xs)
  then have IH: "sum_list (map f xs) \<le> sum_list (map g xs) + (if w \<in> set xs then 1 else 0)"
    by simp
  show ?case
  proof (cases "x = w")
    case True
    then have "w \<notin> set xs" using Cons.prems(3) by simp
    with IH Cons.prems(2) True show ?thesis by simp
  next
    case False
    then have "f x = g x" using Cons.prems(1) by simp
    with IH False show ?thesis by simp
  qed
qed

lemma neighbors_adjacent:
  assumes "valid C" "n \<in> set (neighbors C)"
  obtains nz where "n = swap C (pos C 0) nz" "0 \<le> nz" "nz \<le> 8"
    "\<bar>pos C 0 div 3 - nz div 3\<bar> + \<bar>js_rem (pos C 0) 3 - js_rem nz 3\<bar> = 1"
proof -
  obtain nz where nz: "n = swap C (pos C 0) nz" "0 \<le> nz" "nz \<le> 8"
    using neighbors_cases [OF assms] by blast
  have z: "0 \<le> pos C 0" "pos C 0 \<le> 8" using valid_pos0 [OF assms(1)] by simp_all
  have "swap C (pos C 0) nz \<in> set (neighbors C)" using assms(2) nz(1) by simp
  then have "\<bar>pos C 0 div 3 - nz div 3\<bar> + \<bar>js_rem (pos C 0) 3 - js_rem nz 3\<bar> = 1"
    unfolding neighbors_member [OF assms(1) refl nz(2,3)] grid_adjacent_iff [OF z nz(2,3)] .
  with nz show thesis by (rule that)
qed

lemma pos_swap_other:
  assumes "valid s" "0 \<le> nz" "nz \<le> 8" "v \<in> set s" "v \<noteq> 0" "v \<noteq> s ! nat nz"
  shows "pos (swap s (pos s 0) nz) v = pos s v"
proof -
  define z where "z = pos s 0"
  define i where "i = nat (pos s v)"
  have z: "0 \<le> z" "z \<le> 8" "s ! nat z = 0" using valid_pos0 [OF assms(1)] by (simp_all add: z_def)
  have len: "length s = 9" using assms(1) by (rule valid_length)
  have i: "i < 9" "s ! i = v" "pos s v = int i"
    using indexOf_range [OF assms(4)] indexOf_nth [OF assms(4)] len
    by (auto simp: i_def pos_def)
  have "i \<noteq> nat z" "i \<noteq> nat nz" using i(2) z(3) assms(5,6) by auto
  then have "swap s z nz ! i = v"
    using i len by (simp add: swap_def)
  moreover have "distinct (swap s z nz)" "i < length (swap s z nz)"
    using valid_distinct [OF valid_swap [OF assms(1) z(1,2) assms(2,3)]] i len
    by (simp_all add: swap_def)
  ultimately have "indexOf (swap s z nz) v = int i"
    using indexOf_unique [of "swap s z nz" i] by simp
  then show ?thesis using i by (simp add: pos_def z_def)
qed

lemma pos_swap_tile:
  assumes "valid s" "0 \<le> nz" "nz \<le> 8"
  shows "pos (swap s (pos s 0) nz) (s ! nat nz) = pos s 0" "pos s (s ! nat nz) = nz"
proof -
  define z where "z = pos s 0"
  have z: "0 \<le> z" "z \<le> 8" "s ! nat z = 0" using valid_pos0 [OF assms(1)] by (simp_all add: z_def)
  have len: "length s = 9" using assms(1) by (rule valid_length)
  have "swap s z nz ! nat z = s ! nat nz"
    using z assms len by (auto simp: swap_def nth_list_update)
  moreover have "distinct (swap s z nz)" "nat z < length (swap s z nz)"
    using valid_distinct [OF valid_swap [OF assms(1) z(1,2) assms(2,3)]] z len
    by (simp_all add: swap_def)
  ultimately have "indexOf (swap s z nz) (s ! nat nz) = int (nat z)"
    using indexOf_unique [of "swap s z nz" "nat z"] by simp
  then show "pos (swap s (pos s 0) nz) (s ! nat nz) = pos s 0"
    using z by (simp add: pos_def z_def)
  show "pos s (s ! nat nz) = nz"
    using indexOf_unique [OF valid_distinct [OF assms(1)], of "nat nz"] assms len
    by (simp add: pos_def)
qed

lemma grid_triangle:
  fixes r1 r2 c1 c2 a b :: int
  assumes "\<bar>r1 - r2\<bar> + \<bar>c1 - c2\<bar> = 1"
  shows "nat \<bar>r2 - a\<bar> + nat \<bar>c2 - b\<bar> \<le> nat \<bar>r1 - a\<bar> + nat \<bar>c1 - b\<bar> + 1"
proof -
  have "\<bar>r2 - a\<bar> + \<bar>c2 - b\<bar> \<le> \<bar>r1 - a\<bar> + \<bar>c1 - b\<bar> + 1"
    using assms by linarith
  then show ?thesis by linarith
qed

lemma tile_dist_step:
  assumes "\<bar>z div 3 - nz div 3\<bar> + \<bar>js_rem z 3 - js_rem nz 3\<bar> = 1"
    "pos s w = nz" "pos n w = z"
  shows "tile_dist s w \<le> tile_dist n w + 1"
  unfolding tile_dist_def assms(2,3) using assms(1) by (rule grid_triangle)

lemma manhattan_step:
  assumes "valid s" "n \<in> set (neighbors s)"
  shows "manhattan s \<le> manhattan n + 1"
proof -
  obtain nz where nz: "n = swap s (pos s 0) nz" "0 \<le> nz" "nz \<le> 8"
    "\<bar>pos s 0 div 3 - nz div 3\<bar> + \<bar>js_rem (pos s 0) 3 - js_rem nz 3\<bar> = 1"
    using neighbors_adjacent [OF assms] by blast
  define w where "w = s ! nat nz"
  have set: "set s = {0, 1, 2, 3, 4, 5, 6, 7, 8}" using assms(1) by (rule valid_set)
  have other: "tile_dist s v = tile_dist n v" if "v \<in> set [1..8]" "v \<noteq> w" for v
  proof -
    have "v \<in> set s" "v \<noteq> 0" using that(1) set by auto
    from pos_swap_other [OF assms(1) nz(2,3) this] that(2)
    show ?thesis by (simp add: tile_dist_def nz(1) w_def)
  qed
  have w: "tile_dist s w \<le> tile_dist n w + 1"
    using pos_swap_tile [OF assms(1) nz(2,3)] nz(4)
    by (intro tile_dist_step [where z = "pos s 0" and nz = nz]) (simp_all add: w_def nz(1))
  have "sum_list (map (tile_dist s) [1..8]) \<le>
        sum_list (map (tile_dist n) [1..8]) + (if w \<in> set [1..8] then 1 else 0)"
    using other w by (intro sum_list_one_off) auto
  then show ?thesis by (simp add: manhattan_sum split: if_splits)
qed

lemma manhattan_admissible:
  "valid s \<Longrightarrow> path_from s ps \<Longrightarrow> last (s # ps) = GOAL \<Longrightarrow> manhattan s \<le> length ps"
proof (induction ps arbitrary: s)
  case Nil
  then show ?case by (simp add: manhattan_GOAL)
next
  case (Cons p ps)
  then have p: "p \<in> set (neighbors s)" "path_from p ps" "last (p # ps) = GOAL" by simp_all
  have "valid p" using Cons.prems(1) p(1) by (rule valid_neighbors)
  from Cons.IH [OF this p(2,3)] manhattan_step [OF Cons.prems(1) p(1)]
  show ?case by simp
qed

section \<open>One relaxation\<close>

lemma relax_cases:
  obtains (same) "relax g s n st = st" "\<exists>b. gbest st (key n) = Some b \<and> b \<le> g + 1"
  | (upd) "relax g s n st =
        st\<lparr>gbest := (gbest st)(key n \<mapsto> g + 1),
           parent := (parent st)(key n \<mapsto> Some (key s)),
           opn := opn st @ [\<lparr>node_f = g + 1 + manhattan n, node_g = g + 1, node_s = n\<rparr>]\<rparr>"
      "\<forall>b. gbest st (key n) = Some b \<longrightarrow> g + 1 < b"
proof (cases "case gbest st (key n) of None \<Rightarrow> True | Some b \<Rightarrow> g + 1 < b")
  case True
  then have "relax g s n st =
        st\<lparr>gbest := (gbest st)(key n \<mapsto> g + 1),
           parent := (parent st)(key n \<mapsto> Some (key s)),
           opn := opn st @ [\<lparr>node_f = g + 1 + manhattan n, node_g = g + 1, node_s = n\<rparr>]\<rparr>"
    unfolding relax_def Let_def by (simp only: True if_True)
  moreover have "\<forall>b. gbest st (key n) = Some b \<longrightarrow> g + 1 < b"
    using True by (auto split: option.splits)
  ultimately show thesis by (rule upd)
next
  case False
  then have "relax g s n st = st"
    unfolding relax_def Let_def by (simp only: if_False)
  moreover have "\<exists>b. gbest st (key n) = Some b \<and> b \<le> g + 1"
    using False by (auto split: option.splits)
  ultimately show thesis by (rule same)
qed

lemma relax_gbest_mono:
  assumes "gbest st k = Some a"
  shows "\<exists>a'. gbest (relax g s n st) k = Some a' \<and> a' \<le> a"
proof (cases rule: relax_cases [of g s n st])
  case same
  then show ?thesis using assms by simp
next
  case upd
  then show ?thesis using assms by (cases "k = key n") auto
qed

lemma relax_gbest_n: "\<exists>g'. gbest (relax g s n st) (key n) = Some g' \<and> g' \<le> g + 1"
proof (cases rule: relax_cases [of g s n st])
  case same
  then show ?thesis by simp
next
  case upd
  then show ?thesis by simp
qed

lemma relax_inv_start:
  assumes "inv_start start st"
  shows "inv_start start (relax g s n st)"
proof (cases rule: relax_cases [of g s n st])
  case same
  then show ?thesis using assms by simp
next
  case upd
  have "key n \<noteq> key start"
  proof
    assume "key n = key start"
    then have "gbest st (key n) = Some 0" using assms by (simp add: inv_start_def)
    from upd(2) [rule_format, OF this] show False by simp
  qed
  then show ?thesis using assms by (simp add: upd(1) inv_start_def)
qed

lemma relax_inv_open:
  assumes "inv_open st" "valid n"
  shows "inv_open (relax g s n st)"
proof (cases rule: relax_cases [of g s n st])
  case same
  then show ?thesis using assms by simp
next
  case upd
  show ?thesis
    unfolding inv_open_def
  proof
    fix m assume "m \<in> set (opn (relax g s n st))"
    then consider "m \<in> set (opn st)"
      | "m = \<lparr>node_f = g + 1 + manhattan n, node_g = g + 1, node_s = n\<rparr>"
      by (auto simp: upd(1))
    then show "valid (node_s m) \<and> node_f m = node_g m + manhattan (node_s m) \<and>
        (\<exists>b. gbest (relax g s n st) (key (node_s m)) = Some b \<and> b \<le> node_g m)"
    proof cases
      case 1
      then obtain b where b: "valid (node_s m)" "node_f m = node_g m + manhattan (node_s m)"
          "gbest st (key (node_s m)) = Some b" "b \<le> node_g m"
        using assms(1) by (auto simp: inv_open_def)
      from relax_gbest_mono [OF b(3), of g s n] b show ?thesis by auto
    next
      case 2
      then show ?thesis using assms(2) by (simp add: upd(1))
    qed
  qed
qed

lemma relax_inv_tree:
  assumes "inv_tree start st" "valid s" "valid n" "n \<in> set (neighbors s)"
    "gbest st (key s) = Some b" "b \<le> g"
  shows "inv_tree start (relax g s n st)"
proof (cases rule: relax_cases [of g s n st])
  case same
  then show ?thesis using assms by simp
next
  case upd
  have ks: "key s \<noteq> key n"
  proof
    assume "key s = key n"
    with assms(5) have "gbest st (key n) = Some b" by simp
    from upd(2) [rule_format, OF this] assms(6) show False by simp
  qed
  show ?thesis
    unfolding inv_tree_def
  proof (intro allI impI)
    fix k gk assume gk: "gbest (relax g s n st) k = Some gk"
    show "\<exists>t. valid t \<and> k = key t \<and>
           (t = start \<or>
            (\<exists>p gp. valid p \<and> t \<in> set (neighbors p) \<and>
                    parent (relax g s n st) k = Some (Some (key p)) \<and>
                    gbest (relax g s n st) (key p) = Some gp \<and> gp < gk))"
    proof (cases "k = key n")
      case True
      then have "gk = g + 1" using gk by (simp add: upd(1))
      moreover have "parent (relax g s n st) k = Some (Some (key s))"
        using True by (simp add: upd(1))
      moreover have "gbest (relax g s n st) (key s) = Some b"
        using ks assms(5) by (simp add: upd(1))
      ultimately show ?thesis
        using True assms(2,3,4,6) by (intro exI [of _ n]) auto
    next
      case False
      then have old: "gbest st k = Some gk" using gk by (simp add: upd(1))
      then obtain t where t: "valid t" "k = key t"
          "t = start \<or>
            (\<exists>p gp. valid p \<and> t \<in> set (neighbors p) \<and> parent st k = Some (Some (key p)) \<and>
                    gbest st (key p) = Some gp \<and> gp < gk)"
        using assms(1) unfolding inv_tree_def by blast
      from t(3) show ?thesis
      proof
        assume "t = start"
        with t show ?thesis by blast
      next
        assume "\<exists>p gp. valid p \<and> t \<in> set (neighbors p) \<and> parent st k = Some (Some (key p)) \<and>
                    gbest st (key p) = Some gp \<and> gp < gk"
        then obtain p gp where p: "valid p" "t \<in> set (neighbors p)"
            "parent st k = Some (Some (key p))" "gbest st (key p) = Some gp" "gp < gk"
          by blast
        from relax_gbest_mono [OF p(4), of g s n] obtain gp' where
          "gbest (relax g s n st) (key p) = Some gp'" "gp' \<le> gp" by blast
        moreover have "parent (relax g s n st) k = Some (Some (key p))"
          using False p(3) by (simp add: upd(1))
        ultimately show ?thesis
          using t(1,2) p(1,2,5) by (intro exI [of _ t]) auto
      qed
    qed
  qed
qed

lemma relax_inv_closed:
  assumes "inv_closed X st" "valid n"
  shows "inv_closed X (relax g s n st)"
proof (cases rule: relax_cases [of g s n st])
  case same
  then show ?thesis using assms by simp
next
  case upd
  show ?thesis
    unfolding inv_closed_def
  proof (intro allI impI)
    fix t gt assume t: "valid t \<and> gbest (relax g s n st) (key t) = Some gt"
    show "(t, gt) \<in> X \<or>
        (\<exists>m \<in> set (opn (relax g s n st)). node_s m = t \<and> node_g m = gt) \<or>
        (t \<noteq> GOAL \<and> (\<forall>x \<in> set (neighbors t).
            \<exists>g'. gbest (relax g s n st) (key x) = Some g' \<and> g' \<le> gt + 1))"
    proof (cases "key t = key n")
      case True
      then have "t = n" using t assms(2) by (simp add: key_inj)
      moreover have "gt = g + 1" using t True by (simp add: upd(1))
      ultimately show ?thesis by (simp add: upd(1))
    next
      case False
      then have old: "gbest st (key t) = Some gt" using t by (simp add: upd(1))
      with t assms(1) consider "(t, gt) \<in> X"
        | "\<exists>m \<in> set (opn st). node_s m = t \<and> node_g m = gt"
        | "t \<noteq> GOAL" "\<forall>x \<in> set (neighbors t). \<exists>g'. gbest st (key x) = Some g' \<and> g' \<le> gt + 1"
        unfolding inv_closed_def by blast
      then show ?thesis
      proof cases
        case 1
        then show ?thesis by simp
      next
        case 2
        then show ?thesis by (auto simp: upd(1))
      next
        case 3
        have "\<exists>g'. gbest (relax g s n st) (key x) = Some g' \<and> g' \<le> gt + 1"
          if "x \<in> set (neighbors t)" for x
        proof -
          from 3(2) that obtain g' where g': "gbest st (key x) = Some g'" "g' \<le> gt + 1" by blast
          from relax_gbest_mono [OF g'(1), of g s n] g'(2) show ?thesis by auto
        qed
        with 3(1) show ?thesis by blast
      qed
    qed
  qed
qed

section \<open>The termination measure\<close>

lemma finite_valid: "finite {s. valid s}"
proof -
  have "{s. valid s} \<subseteq> {xs. set xs \<subseteq> {0, 1, 2, 3, 4, 5, 6, 7, 8} \<and> length xs = 9}"
    by (auto dest: valid_set valid_length)
  moreover have "finite {xs. set xs \<subseteq> {0, 1, 2, 3, 4, 5, 6, 7, 8::int} \<and> length xs = 9}"
    by (rule finite_lists_length_eq) simp
  ultimately show ?thesis by (rule finite_subset)
qed

lemma finite_all_keys: "finite all_keys"
  unfolding all_keys_def using finite_valid by (rule finite_imageI)

lemma key_in_all_keys: "valid s \<Longrightarrow> key s \<in> all_keys"
  by (simp add: all_keys_def)

lemma wf_search_less: "wf search_less"
  unfolding search_less_def by (intro wf_inv_image wf_lex_prod wf_less_than)

lemma search_less_iff:
  "(st', st) \<in> search_less \<longleftrightarrow>
     unseen st' < unseen st \<or>
     (unseen st' = unseen st \<and>
        (cost_sum st' < cost_sum st \<or>
         (cost_sum st' = cost_sum st \<and> length (opn st') < length (opn st))))"
  by (simp add: search_less_def)

lemma relax_measure:
  assumes "valid n"
  shows "relax g s n st = st \<or> unseen (relax g s n st) < unseen st \<or>
         (unseen (relax g s n st) = unseen st \<and> cost_sum (relax g s n st) < cost_sum st)"
proof (cases rule: relax_cases [of g s n st])
  case same
  then show ?thesis by simp
next
  case upd
  have k: "key n \<in> all_keys" using assms by (rule key_in_all_keys)
  have gb: "gbest (relax g s n st) = (gbest st)(key n \<mapsto> g + 1)" by (simp add: upd(1))
  show ?thesis
  proof (cases "gbest st (key n)")
    case None
    then have mem: "key n \<in> all_keys - dom (gbest st)" using k by auto
    have eq: "all_keys - dom (gbest (relax g s n st)) = (all_keys - dom (gbest st)) - {key n}"
      by (auto simp: gb)
    have "finite (all_keys - dom (gbest st))" using finite_all_keys by simp
    from card_Diff1_less [OF this mem] have "unseen (relax g s n st) < unseen st"
      unfolding unseen_def eq .
    then show ?thesis by simp
  next
    case (Some b)
    with upd(2) have lt: "g + 1 < b" by simp
    have dom: "dom (gbest (relax g s n st)) = dom (gbest st)"
      using Some by (auto simp: gb)
    have fin: "finite (all_keys \<inter> dom (gbest st))" using finite_all_keys by simp
    have le: "\<forall>x \<in> all_keys \<inter> dom (gbest st).
        the (gbest (relax g s n st) x) \<le> the (gbest st x)"
      using lt Some by (auto simp: gb)
    have "key n \<in> all_keys \<inter> dom (gbest st)" using k Some by auto
    moreover have "the (gbest (relax g s n st) (key n)) < the (gbest st (key n))"
      using lt Some by (simp add: gb)
    ultimately have ex: "\<exists>a \<in> all_keys \<inter> dom (gbest st).
        the (gbest (relax g s n st) a) < the (gbest st a)" by blast
    have "cost_sum (relax g s n st) < cost_sum st"
      unfolding cost_sum_def dom using fin le ex by (rule sum_strict_mono_ex1)
    moreover have "unseen (relax g s n st) = unseen st"
      by (simp add: unseen_def dom)
    ultimately show ?thesis by simp
  qed
qed

section \<open>Expanding a node\<close>

lemma fold_relax_mono:
  "gbest st k = Some a \<Longrightarrow> \<exists>a'. gbest (fold (relax g s) ns st) k = Some a' \<and> a' \<le> a"
proof (induction ns arbitrary: st a)
  case Nil
  then show ?case by simp
next
  case (Cons n ns)
  from relax_gbest_mono [OF Cons.prems, of g s n] obtain a1 where
    a1: "gbest (relax g s n st) k = Some a1" "a1 \<le> a" by blast
  from Cons.IH [OF a1(1)] a1(2) show ?case by auto
qed

lemma fold_relax_neighbors:
  "n \<in> set ns \<Longrightarrow> \<exists>g'. gbest (fold (relax g s) ns st) (key n) = Some g' \<and> g' \<le> g + 1"
proof (induction ns arbitrary: st)
  case Nil
  then show ?case by simp
next
  case (Cons x ns)
  show ?case
  proof (cases "n \<in> set ns")
    case True
    then show ?thesis using Cons.IH by simp
  next
    case False
    with Cons.prems have "n = x" by simp
    from relax_gbest_n [of g s n st] obtain g1 where
      g1: "gbest (relax g s n st) (key n) = Some g1" "g1 \<le> g + 1" by blast
    from fold_relax_mono [OF g1(1), of g s ns] g1(2) \<open>n = x\<close> show ?thesis by auto
  qed
qed

lemma fold_relax_inv:
  assumes "valid s" "\<forall>n \<in> set ns. n \<in> set (neighbors s)"
  shows "inv_start start st \<Longrightarrow> inv_open st \<Longrightarrow> inv_tree start st \<Longrightarrow> inv_closed X st \<Longrightarrow>
         gbest st (key s) = Some b \<Longrightarrow> b \<le> g \<Longrightarrow>
         inv_start start (fold (relax g s) ns st) \<and> inv_open (fold (relax g s) ns st) \<and>
         inv_tree start (fold (relax g s) ns st) \<and> inv_closed X (fold (relax g s) ns st)"
  using assms(2)
proof (induction ns arbitrary: st b)
  case Nil
  then show ?case by simp
next
  case (Cons n ns)
  have n: "n \<in> set (neighbors s)" using Cons.prems(7) by simp
  then have vn: "valid n" using assms(1) by (simp add: valid_neighbors)
  from relax_gbest_mono [OF Cons.prems(5), of g s n] obtain b' where
    b': "gbest (relax g s n st) (key s) = Some b'" "b' \<le> b" by blast
  have "inv_start start (relax g s n st)" using Cons.prems(1) by (rule relax_inv_start)
  moreover have "inv_open (relax g s n st)" using Cons.prems(2) vn by (rule relax_inv_open)
  moreover have "inv_tree start (relax g s n st)"
    using Cons.prems(3) assms(1) vn n Cons.prems(5,6) by (rule relax_inv_tree)
  moreover have "inv_closed X (relax g s n st)" using Cons.prems(4) vn by (rule relax_inv_closed)
  moreover have "b' \<le> g" using b'(2) Cons.prems(6) by simp
  moreover have "\<forall>n \<in> set ns. n \<in> set (neighbors s)" using Cons.prems(7) by simp
  ultimately show ?case
    using Cons.IH [of "relax g s n st" b'] b'(1) by simp
qed

lemma fold_relax_measure:
  assumes "\<forall>n \<in> set ns. valid n"
  shows "fold (relax g s) ns st = st \<or> unseen (fold (relax g s) ns st) < unseen st \<or>
         (unseen (fold (relax g s) ns st) = unseen st \<and>
          cost_sum (fold (relax g s) ns st) < cost_sum st)"
  using assms
proof (induction ns arbitrary: st)
  case Nil
  then show ?case by simp
next
  case (Cons n ns)
  then have vn: "valid n" and rest: "\<forall>n \<in> set ns. valid n" by simp_all
  from relax_measure [OF vn, of g s st] Cons.IH [OF rest, of "relax g s n st"]
  show ?case by auto
qed

lemma expand_step:
  assumes inv: "astar_inv start st" and ne: "opn st \<noteq> []"
    and pm: "popMin (opn st) = (m, rest)" and ng: "key (node_s m) \<noteq> key GOAL"
  defines "st' \<equiv> fold (relax (node_g m) (node_s m)) (neighbors (node_s m)) (st\<lparr>opn := rest\<rparr>)"
  shows "astar_inv start st'" "(st', st) \<in> search_less"
proof -
  define s where "s = node_s m"
  define g where "g = node_g m"
  define st0 where "st0 = st\<lparr>opn := rest\<rparr>"
  have st': "st' = fold (relax g s) (neighbors s) st0"
    by (simp add: st'_def s_def g_def st0_def)
  from popMin_props [OF ne pm] have m: "m \<in> set (opn st)"
    and ms: "mset (opn st) = add_mset m (mset rest)" by simp_all
  from ms have set: "set (opn st) = insert m (set rest)"
    by (metis set_mset_add_mset_insert set_mset_mset)
  from ms have len: "length (opn st) = Suc (length rest)"
    by (metis size_add_mset size_mset)
  from inv have I: "inv_start start st" "inv_open st" "inv_tree start st" "inv_closed {} st"
    by (simp_all add: astar_inv_def)
  from I(2) m obtain b where b: "valid s" "gbest st (key s) = Some b" "b \<le> g"
    by (auto simp: inv_open_def s_def g_def)
  have sg: "s \<noteq> GOAL" using ng by (auto simp: s_def)
  have 1: "inv_start start st0" using I(1) by (simp add: inv_start_def st0_def)
  have 2: "inv_open st0" using I(2) set by (simp add: inv_open_def st0_def)
  have 3: "inv_tree start st0" using I(3) by (simp add: inv_tree_def st0_def)
  have 4: "inv_closed {(s, g)} st0"
    unfolding inv_closed_def
  proof (intro allI impI)
    fix t gt assume t: "valid t \<and> gbest st0 (key t) = Some gt"
    then have "valid t \<and> gbest st (key t) = Some gt" by (simp add: st0_def)
    with I(4) consider "\<exists>x \<in> set (opn st). node_s x = t \<and> node_g x = gt"
      | "t \<noteq> GOAL \<and> (\<forall>n \<in> set (neighbors t). \<exists>g'. gbest st (key n) = Some g' \<and> g' \<le> gt + 1)"
      unfolding inv_closed_def by blast
    then show "(t, gt) \<in> {(s, g)} \<or>
        (\<exists>x \<in> set (opn st0). node_s x = t \<and> node_g x = gt) \<or>
        (t \<noteq> GOAL \<and> (\<forall>n \<in> set (neighbors t). \<exists>g'. gbest st0 (key n) = Some g' \<and> g' \<le> gt + 1))"
    proof cases
      case 1
      then obtain x where x: "x \<in> set (opn st)" "node_s x = t" "node_g x = gt" by blast
      show ?thesis
      proof (cases "x = m")
        case True
        then show ?thesis using x by (simp add: s_def g_def)
      next
        case False
        then have "x \<in> set (opn st0)" using x(1) set by (simp add: st0_def)
        with x show ?thesis by blast
      qed
    next
      case 2
      then show ?thesis by (simp add: st0_def)
    qed
  qed
  have b0: "gbest st0 (key s) = Some b" using b(2) by (simp add: st0_def)
  have nb: "\<forall>n \<in> set (neighbors s). n \<in> set (neighbors s)" by simp
  from fold_relax_inv [OF b(1) nb 1 2 3 4 b0 b(3)]
  have J: "inv_start start st'" "inv_open st'" "inv_tree start st'" "inv_closed {(s, g)} st'"
    by (simp_all add: st')
  have 5: "inv_closed {} st'"
    unfolding inv_closed_def
  proof (intro allI impI)
    fix t gt assume t: "valid t \<and> gbest st' (key t) = Some gt"
    with J(4) consider "(t, gt) = (s, g)"
      | "\<exists>x \<in> set (opn st'). node_s x = t \<and> node_g x = gt"
      | "t \<noteq> GOAL \<and> (\<forall>n \<in> set (neighbors t). \<exists>g'. gbest st' (key n) = Some g' \<and> g' \<le> gt + 1)"
      unfolding inv_closed_def by blast
    then show "(t, gt) \<in> {} \<or>
        (\<exists>x \<in> set (opn st'). node_s x = t \<and> node_g x = gt) \<or>
        (t \<noteq> GOAL \<and> (\<forall>n \<in> set (neighbors t). \<exists>g'. gbest st' (key n) = Some g' \<and> g' \<le> gt + 1))"
    proof cases
      case 1
      have "\<forall>n \<in> set (neighbors s). \<exists>g'. gbest st' (key n) = Some g' \<and> g' \<le> g + 1"
        unfolding st' using fold_relax_neighbors by blast
      with 1 sg show ?thesis by simp
    next
      case 2
      then show ?thesis by blast
    next
      case 3
      then show ?thesis by blast
    qed
  qed
  show "astar_inv start st'" using J(1,2,3) 5 by (simp add: astar_inv_def)
  have vn: "\<forall>n \<in> set (neighbors s). valid n" using b(1) by (simp add: valid_neighbors)
  have m0: "unseen st0 = unseen st" "cost_sum st0 = cost_sum st"
    "length (opn st0) < length (opn st)"
    using len by (simp_all add: unseen_def cost_sum_def st0_def)
  from fold_relax_measure [OF vn, of g s st0] m0
  show "(st', st) \<in> search_less"
    unfolding search_less_iff st' by auto
qed

section \<open>The main loop\<close>

lemma open_bound:
  assumes "inv_open st" "inv_closed {} st"
  shows "valid s \<Longrightarrow> gbest st (key s) = Some g \<Longrightarrow> route s ps GOAL \<Longrightarrow>
         \<exists>m \<in> set (opn st). node_f m \<le> g + length ps"
proof (induction ps arbitrary: s g)
  case Nil
  then have s: "s = GOAL" by (simp add: route_def)
  from assms(2) Nil.prems(1,2) s obtain m where
    m: "m \<in> set (opn st)" "node_s m = s" "node_g m = g"
    unfolding inv_closed_def by blast
  then have "node_f m = g + manhattan GOAL" using assms(1) s by (auto simp: inv_open_def)
  with m(1) show ?case by (auto simp: manhattan_GOAL)
next
  case (Cons p ps)
  then have p: "p \<in> set (neighbors s)" "route p ps GOAL" by (simp_all add: route_def)
  have vp: "valid p" using Cons.prems(1) p(1) by (rule valid_neighbors)
  from assms(2) Cons.prems(1,2) consider
    "\<exists>m \<in> set (opn st). node_s m = s \<and> node_g m = g"
    | "\<forall>n \<in> set (neighbors s). \<exists>g'. gbest st (key n) = Some g' \<and> g' \<le> g + 1"
    unfolding inv_closed_def by blast
  then show ?case
  proof cases
    case 1
    then obtain m where m: "m \<in> set (opn st)" "node_s m = s" "node_g m = g" by blast
    then have "node_f m = g + manhattan s" using assms(1) by (auto simp: inv_open_def)
    moreover have "manhattan s \<le> length (p # ps)"
      using Cons.prems(1,3) by (intro manhattan_admissible) (simp_all add: route_def)
    ultimately have "node_f m \<le> g + length (p # ps)" by simp
    with m(1) show ?thesis by blast
  next
    case 2
    with p(1) obtain g' where g': "gbest st (key p) = Some g'" "g' \<le> g + 1" by blast
    from Cons.IH [OF vp g'(1) p(2)] obtain m where
      m: "m \<in> set (opn st)" "node_f m \<le> g' + length ps" by blast
    then have "node_f m \<le> g + length (p # ps)" using g'(2) by simp
    with m(1) show ?thesis by blast
  qed
qed

lemma path_from_snoc:
  "path_from s ps \<Longrightarrow> t \<in> set (neighbors (last (s # ps))) \<Longrightarrow> path_from s (ps @ [t])"
  by (induction ps arbitrary: s) auto

lemma reconstruct_route:
  assumes "inv_start start st" "inv_tree start st"
  shows "valid s \<Longrightarrow> gbest st (key s) = Some g \<Longrightarrow>
         \<exists>ps. reconstruct (parent st) (key s) acc = Some (acc @ rev ps) \<and>
              route start ps s \<and> length ps \<le> g"
proof (induction g arbitrary: s acc rule: less_induct)
  case (less g)
  from assms(2) less.prems(2) obtain t where t: "valid t" "key s = key t"
      "t = start \<or>
        (\<exists>p gp. valid p \<and> t \<in> set (neighbors p) \<and> parent st (key s) = Some (Some (key p)) \<and>
                gbest st (key p) = Some gp \<and> gp < g)"
    unfolding inv_tree_def by blast
  then have ts: "t = s" using less.prems(1) by (simp add: key_inj)
  from t(3) show ?case
  proof
    assume "t = start"
    then have "parent st (key s) = Some None" using assms(1) ts by (simp add: inv_start_def)
    then have "reconstruct (parent st) (key s) acc = Some (acc @ rev [])"
      by (subst reconstruct.simps) simp
    moreover have "route start [] s" using \<open>t = start\<close> ts by (simp add: route_def)
    moreover have "length ([] :: State list) \<le> g" by simp
    ultimately show ?thesis by blast
  next
    assume "\<exists>p gp. valid p \<and> t \<in> set (neighbors p) \<and> parent st (key s) = Some (Some (key p)) \<and>
                gbest st (key p) = Some gp \<and> gp < g"
    then obtain p gp where p: "valid p" "s \<in> set (neighbors p)"
        "parent st (key s) = Some (Some (key p))" "gbest st (key p) = Some gp" "gp < g"
      using ts by blast
    from less.IH [OF p(5) p(1) p(4), of "acc @ [unkey (key s)]"] obtain ps where
      ps: "reconstruct (parent st) (key p) (acc @ [unkey (key s)]) = Some ((acc @ [unkey (key s)]) @ rev ps)"
        "route start ps p" "length ps \<le> gp" by blast
    have "reconstruct (parent st) (key s) acc = reconstruct (parent st) (key p) (acc @ [unkey (key s)])"
      using p(3) key_not_Nil [OF p(1)] by (subst reconstruct.simps) simp
    with ps(1) have "reconstruct (parent st) (key s) acc = Some (acc @ rev (ps @ [s]))"
      using less.prems(1) by (simp add: unkey_key_valid)
    moreover have "route start (ps @ [s]) s"
      using ps(2) p(2) by (simp add: route_def path_from_snoc)
    moreover have "length (ps @ [s]) \<le> g" using ps(3) p(5) by simp
    ultimately show ?thesis by blast
  qed
qed

lemma valid_GOAL: "valid GOAL"
  by (simp add: valid_def GOAL_def)

lemma astar_loop_total:
  "astar_inv start st \<Longrightarrow> \<exists>r. astar_loop st = Some r \<and> astar_post start r"
proof (induction st rule: wf_induct_rule [OF wf_search_less])
  case (1 st)
  from "1.prems" have I: "inv_start start st" "inv_open st" "inv_tree start st" "inv_closed {} st"
    by (simp_all add: astar_inv_def)
  have start: "valid start" "gbest st (key start) = Some 0"
    using I(1) by (simp_all add: inv_start_def)
  have bound: "\<exists>m \<in> set (opn st). node_f m \<le> length qs" if "route start qs GOAL" for qs
    using open_bound [OF I(2,4) start that] by simp
  show ?case
  proof (cases "opn st = []")
    case True
    then have "astar_loop st = Some None" by (subst astar_loop.simps) simp
    moreover have "astar_post start None"
      using bound True by (auto simp: astar_post_def)
    ultimately show ?thesis by blast
  next
    case False
    obtain m rest where pm: "popMin (opn st) = (m, rest)" by (cases "popMin (opn st)")
    from popMin_props [OF False pm] have m: "m \<in> set (opn st)"
      and least: "\<forall>x \<in> set (opn st). node_f m \<le> node_f x" by simp_all
    from I(2) m obtain b where b: "valid (node_s m)"
        "node_f m = node_g m + manhattan (node_s m)"
        "gbest st (key (node_s m)) = Some b" "b \<le> node_g m"
      by (auto simp: inv_open_def)
    show ?thesis
    proof (cases "key (node_s m) = key GOAL")
      case True
      then have sG: "node_s m = GOAL" using b(1) valid_GOAL by (simp add: key_inj)
      from reconstruct_route [OF I(1,3) b(1,3), of "[]"] obtain ps where
        ps: "reconstruct (parent st) (key (node_s m)) [] = Some (rev ps)"
          "route start ps GOAL" "length ps \<le> b"
        using sG by auto
      have "astar_loop st = Some (Some ps)"
        using False pm True ps(1) by (subst astar_loop.simps) simp
      moreover have "length ps \<le> length qs" if "route start qs GOAL" for qs
      proof -
        from bound [OF that] obtain x where x: "x \<in> set (opn st)" "node_f x \<le> length qs"
          by blast
        have "node_f m = node_g m" using b(2) sG by (simp add: manhattan_GOAL)
        with least x ps(3) b(4) show ?thesis by fastforce
      qed
      ultimately show ?thesis using ps(2) by (auto simp: astar_post_def)
    next
      case ng: False
      define st' where
        "st' = fold (relax (node_g m) (node_s m)) (neighbors (node_s m)) (st\<lparr>opn := rest\<rparr>)"
      from expand_step [OF "1.prems" False pm ng]
      have "astar_inv start st'" "(st', st) \<in> search_less" by (simp_all add: st'_def)
      from "1.IH" [OF this(2,1)] obtain r where
        r: "astar_loop st' = Some r" "astar_post start r" by blast
      have "astar_loop st = astar_loop st'"
        using False pm ng by (subst astar_loop.simps) (simp add: st'_def)
      with r show ?thesis by simp
    qed
  qed
qed

lemma astar_inv_init:
  assumes "valid start"
  shows "astar_inv start
           \<lparr>opn = [\<lparr>node_f = manhattan start, node_g = 0, node_s = start\<rparr>],
            parent = [key start \<mapsto> None], gbest = [key start \<mapsto> 0]\<rparr>"
  using assms
  by (auto simp: astar_inv_def inv_start_def inv_open_def inv_tree_def inv_closed_def key_inj
      split: if_splits)

lemma aStar_total:
  assumes "valid start"
  shows "\<exists>r. aStar start = Some r \<and> astar_post start r"
proof (cases "key start = key GOAL")
  case True
  then have "start = GOAL" using assms valid_GOAL by (simp add: key_inj)
  then have "aStar start = Some (Some [])" "astar_post start (Some [])"
    by (simp_all add: aStar_def astar_post_def route_def)
  then show ?thesis by blast
next
  case False
  then show ?thesis
    using astar_loop_total [OF astar_inv_init [OF assms]] by (simp add: aStar_def)
qed

section \<open>What the solver returns\<close>

lemma route_solvable:
  assumes "valid s" "route s ps t"
  shows "isSolvable t = isSolvable s"
proof (cases ps)
  case Nil
  then show ?thesis using assms(2) by (simp add: route_def)
next
  case (Cons q qs)
  then have "ps \<noteq> []" by simp
  then have "last (s # ps) \<in> set ps" by simp
  then have t: "t \<in> set ps" using assms(2) by (simp add: route_def)
  have "path_from s ps" using assms(2) by (simp add: route_def)
  with assms(1) show ?thesis using t by (rule path_solvable)
qed

lemma isSolvable_GOAL: "isSolvable GOAL"
  by (simp add: isSolvable_def inversions_def GOAL_def)

text \<open>
  C8. \<open>aStar\<close> applied to the goal configuration returns the empty sequence: the first
  line of the function compares the keys and returns \<^verbatim>\<open>[]\<close> before any search.
\<close>

theorem aStar_GOAL: "aStar GOAL = Some (Some [])"
  by (simp add: aStar_def)

text \<open>
  C7. \<open>aStar\<close> terminates on every valid configuration: the loop, defined without any
  assumption of termination (\<open>None\<close> is the loop that runs forever), returns a result.
  Each pass either records a strictly lower cost for some configuration or a first cost
  for a new one, or leaves the costs as they are and shortens the open list by the popped
  node.
\<close>

theorem aStar_terminates:
  assumes "valid C"
  shows "\<exists>r. aStar C = Some r"
  using aStar_total [OF assms] by blast

theorem aStar_terminates_witness:
  "valid [1, 2, 3, 4, 5, 6, 8, 7, 0] \<and> (\<exists>r. aStar [1, 2, 3, 4, 5, 6, 8, 7, 0] = Some r)"
proof -
  have v: "valid [1, 2, 3, 4, 5, 6, 8, 7, 0]" by (simp add: valid_def)
  from aStar_terminates [OF v] v show ?thesis by simp
qed

text \<open>
  C6. For a valid configuration of odd inversion parity, \<open>aStar\<close> returns \<^verbatim>\<open>null\<close>:
  the search ends with an empty open list, and never with a sequence.
\<close>

theorem aStar_unsolvable:
  assumes "valid C" "\<not> isSolvable C"
  shows "aStar C = Some None"
proof -
  from aStar_total [OF assms(1)] obtain r where r: "aStar C = Some r" "astar_post C r"
    by blast
  show ?thesis
  proof (cases r)
    case None
    with r show ?thesis by simp
  next
    case (Some p)
    with r(2) have "route C p GOAL" by (simp add: astar_post_def)
    from route_solvable [OF assms(1) this] isSolvable_GOAL assms(2) show ?thesis by simp
  qed
qed

theorem aStar_unsolvable_witness:
  "valid [1, 2, 3, 4, 5, 6, 8, 7, 0] \<and> \<not> isSolvable [1, 2, 3, 4, 5, 6, 8, 7, 0] \<and>
   aStar [1, 2, 3, 4, 5, 6, 8, 7, 0] = Some None"
proof -
  have v: "valid [1, 2, 3, 4, 5, 6, 8, 7, 0]" by (simp add: valid_def)
  have u: "\<not> isSolvable [1, 2, 3, 4, 5, 6, 8, 7, 0]"
    by (simp add: isSolvable_def inversions_def)
  from aStar_unsolvable [OF v u] v u show ?thesis by simp
qed

text \<open>
  C10. Inversion parity is invariant under legal moves: for a valid configuration \<open>C\<close>,
  every element of \<open>neighbors C\<close> has the inversion parity of \<open>C\<close> and so the same
  \<open>isSolvable\<close>. The same holds for what the other operations make of \<open>C\<close>: every
  state on a sequence of legal moves from \<open>C\<close>, the state a click produces, and every
  state of the sequence \<open>aStar\<close> returns.
\<close>

theorem parity_invariant:
  assumes "valid C"
  shows "(\<forall>n \<in> set (neighbors C).
            inversions n mod 2 = inversions C mod 2 \<and> isSolvable n = isSolvable C) \<and>
         (\<forall>ps. path_from C ps \<longrightarrow> (\<forall>p \<in> set ps. isSolvable p = isSolvable C)) \<and>
         (\<forall>b i. 0 \<le> i \<and> i \<le> 8 \<longrightarrow> isSolvable (tryMove b C i) = isSolvable C) \<and>
         (\<forall>p. aStar C = Some (Some p) \<longrightarrow> (\<forall>q \<in> set p. isSolvable q = isSolvable C))"
proof (intro conjI ballI allI impI)
  fix n assume "n \<in> set (neighbors C)"
  with assms show "inversions n mod 2 = inversions C mod 2" by (rule neighbor_parity)
next
  fix n assume "n \<in> set (neighbors C)"
  with assms show "isSolvable n = isSolvable C" by (rule neighbor_solvable)
next
  fix ps p assume "path_from C ps" "p \<in> set ps"
  with assms show "isSolvable p = isSolvable C" by (rule path_solvable)
next
  fix b i assume "0 \<le> i \<and> i \<le> (8::int)"
  with tryMove_result [OF assms, of i b] neighbor_solvable [OF assms]
  show "isSolvable (tryMove b C i) = isSolvable C" by auto
next
  fix p q assume p: "aStar C = Some (Some p)" and q: "q \<in> set p"
  from aStar_total [OF assms] p have "astar_post C (Some p)" by auto
  then have "path_from C p" by (simp add: astar_post_def route_def)
  with assms show "isSolvable q = isSolvable C" using q by (rule path_solvable)
qed

theorem parity_invariant_witness:
  "valid [1, 2, 3, 4, 5, 6, 0, 7, 8] \<and>
   [1, 2, 3, 4, 5, 6, 7, 0, 8] \<in> set (neighbors [1, 2, 3, 4, 5, 6, 0, 7, 8]) \<and>
   inversions [1, 2, 3, 4, 5, 6, 7, 0, 8] mod 2 = inversions [1, 2, 3, 4, 5, 6, 0, 7, 8] mod 2 \<and>
   isSolvable [1, 2, 3, 4, 5, 6, 7, 0, 8] = isSolvable [1, 2, 3, 4, 5, 6, 0, 7, 8] \<and>
   path_from [1, 2, 3, 4, 5, 6, 0, 7, 8] [[1, 2, 3, 4, 5, 6, 7, 0, 8], [1, 2, 3, 4, 5, 6, 7, 8, 0]] \<and>
   isSolvable [1, 2, 3, 4, 5, 6, 7, 8, 0] = isSolvable [1, 2, 3, 4, 5, 6, 0, 7, 8] \<and>
   isSolvable (tryMove False [1, 2, 3, 4, 5, 6, 0, 7, 8] 7) = isSolvable [1, 2, 3, 4, 5, 6, 0, 7, 8] \<and>
   aStar [1, 2, 3, 4, 5, 6, 0, 7, 8] =
     Some (Some [[1, 2, 3, 4, 5, 6, 7, 0, 8], [1, 2, 3, 4, 5, 6, 7, 8, 0]])"
proof -
  have v: "valid [1, 2, 3, 4, 5, 6, 0, 7, 8]" by (simp add: valid_def)
  have m: "[1, 2, 3, 4, 5, 6, 7, 0, 8] \<in> set (neighbors [1, 2, 3, 4, 5, 6, 0, 7, 8])"
    by (simp add: neighbors_formula [of _ 6] pos_def swap_def)
  have n2: "[1, 2, 3, 4, 5, 6, 7, 8, 0] \<in> set (neighbors [1, 2, 3, 4, 5, 6, 7, 0, 8])"
    by (simp add: neighbors_formula [of _ 7] pos_def swap_def)
  have p: "path_from [1, 2, 3, 4, 5, 6, 0, 7, 8]
             [[1, 2, 3, 4, 5, 6, 7, 0, 8], [1, 2, 3, 4, 5, 6, 7, 8, 0]]"
    using m n2 by simp
  have q: "[1, 2, 3, 4, 5, 6, 7, 8, 0]
            \<in> set [[1, 2, 3, 4, 5, 6, 7, 0, 8], [1, 2, 3, 4, 5, 6, 7, 8, 0]]"
    by simp
  have i: "(0::int) \<le> 7 \<and> (7::int) \<le> 8" by simp
  have a: "aStar [1, 2, 3, 4, 5, 6, 0, 7, 8] =
      Some (Some [[1, 2, 3, 4, 5, 6, 7, 0, 8], [1, 2, 3, 4, 5, 6, 7, 8, 0]])"
    by code_simp
  from parity_invariant [OF v]
  have A: "\<forall>n \<in> set (neighbors [1, 2, 3, 4, 5, 6, 0, 7, 8]).
            inversions n mod 2 = inversions [1, 2, 3, 4, 5, 6, 0, 7, 8] mod 2 \<and>
            isSolvable n = isSolvable [1, 2, 3, 4, 5, 6, 0, 7, 8]"
    and B: "\<forall>ps. path_from [1, 2, 3, 4, 5, 6, 0, 7, 8] ps \<longrightarrow>
            (\<forall>p \<in> set ps. isSolvable p = isSolvable [1, 2, 3, 4, 5, 6, 0, 7, 8])"
    and C: "\<forall>b i. 0 \<le> i \<and> i \<le> 8 \<longrightarrow>
            isSolvable (tryMove b [1, 2, 3, 4, 5, 6, 0, 7, 8] i) =
            isSolvable [1, 2, 3, 4, 5, 6, 0, 7, 8]"
    and D: "\<forall>p. aStar [1, 2, 3, 4, 5, 6, 0, 7, 8] = Some (Some p) \<longrightarrow>
            (\<forall>q \<in> set p. isSolvable q = isSolvable [1, 2, 3, 4, 5, 6, 0, 7, 8])"
    by blast+
  from A [rule_format, OF m] B [rule_format, OF p q] C [rule_format, OF i, of False]
    D [rule_format, OF a q] v m p a
  show ?thesis by blast
qed

section \<open>Every configuration of even parity can be solved\<close>

lemma reach_refl: "reach s s"
  unfolding reach_def route_def by (rule exI [of _ "[]"]) simp

lemma path_from_append:
  "path_from s ps \<Longrightarrow> path_from (last (s # ps)) qs \<Longrightarrow> path_from s (ps @ qs)"
  by (induction ps arbitrary: s) auto

lemma route_append: "route s ps t \<Longrightarrow> route t qs u \<Longrightarrow> route s (ps @ qs) u"
  unfolding route_def by (auto simp: path_from_append)

lemma reach_trans: "reach s t \<Longrightarrow> reach t u \<Longrightarrow> reach s u"
  unfolding reach_def by (blast intro: route_append)

lemma route_valid: "valid s \<Longrightarrow> route s ps t \<Longrightarrow> valid t"
proof (cases ps)
  case Nil
  assume "valid s" "route s ps t"
  with Nil show ?thesis by (simp add: route_def)
next
  case (Cons q qs)
  assume v: "valid s" and r: "route s ps t"
  from Cons have "last (s # ps) \<in> set ps" by simp
  then have "t \<in> set ps" using r by (simp add: route_def)
  moreover have "path_from s ps" using r by (simp add: route_def)
  ultimately show ?thesis using v by (blast intro: path_valid)
qed

lemma reach_valid: "valid s \<Longrightarrow> reach s t \<Longrightarrow> valid t"
  unfolding reach_def by (blast intro: route_valid)

lemma reach_solvable: "valid s \<Longrightarrow> reach s t \<Longrightarrow> isSolvable t = isSolvable s"
  unfolding reach_def by (auto simp: route_solvable)

lemma run_reach: "run s ds = Some t \<Longrightarrow> reach s t"
proof (induction ds arbitrary: s)
  case Nil
  then show ?case by (simp add: reach_refl)
next
  case (Cons d ds)
  define u where "u = swap s (pos s 0) (pos s 0 + d)"
  from Cons.prems have u: "u \<in> set (neighbors s)" and r: "run u ds = Some t"
    by (simp_all add: u_def Let_def split: if_splits)
  have "route s [u] u" using u by (simp add: route_def)
  then have "reach s u" unfolding reach_def by blast
  with Cons.IH [OF r] show ?case by (blast intro: reach_trans)
qed

lemma list9: "length s = 9 \<Longrightarrow> \<exists>a b c d e f g h i. s = [a, b, c, d, e, f, g, h, i]"
  by (auto simp: eval_nat_numeral length_Suc_conv)

subsection \<open>The blank is brought to the last cell\<close>
lemma blank_home_0:
  assumes "a \<noteq> 0" "b \<noteq> 0" "c \<noteq> 0" "d \<noteq> 0" "e \<noteq> 0" "f \<noteq> 0" "g \<noteq> 0" "h \<noteq> 0"
  shows "run [0, a, b, c, d, e, f, g, h] [3, 3, 1, 1] = Some [c, a, b, f, d, e, g, h, 0]"
  using assms
  by (simp add: pos_def swap_def neighbors_def neighbors_run_def neighbors_body_def deltas_def
      js_rem_def Let_def)
lemma blank_home_1:
  assumes "a \<noteq> 0" "b \<noteq> 0" "c \<noteq> 0" "d \<noteq> 0" "e \<noteq> 0" "f \<noteq> 0" "g \<noteq> 0" "h \<noteq> 0"
  shows "run [a, 0, b, c, d, e, f, g, h] [3, 3, 1] = Some [a, d, b, c, g, e, f, h, 0]"
  using assms
  by (simp add: pos_def swap_def neighbors_def neighbors_run_def neighbors_body_def deltas_def
      js_rem_def Let_def)
lemma blank_home_2:
  assumes "a \<noteq> 0" "b \<noteq> 0" "c \<noteq> 0" "d \<noteq> 0" "e \<noteq> 0" "f \<noteq> 0" "g \<noteq> 0" "h \<noteq> 0"
  shows "run [a, b, 0, c, d, e, f, g, h] [3, 3] = Some [a, b, e, c, d, h, f, g, 0]"
  using assms
  by (simp add: pos_def swap_def neighbors_def neighbors_run_def neighbors_body_def deltas_def
      js_rem_def Let_def)
lemma blank_home_3:
  assumes "a \<noteq> 0" "b \<noteq> 0" "c \<noteq> 0" "d \<noteq> 0" "e \<noteq> 0" "f \<noteq> 0" "g \<noteq> 0" "h \<noteq> 0"
  shows "run [a, b, c, 0, d, e, f, g, h] [3, 1, 1] = Some [a, b, c, f, d, e, g, h, 0]"
  using assms
  by (simp add: pos_def swap_def neighbors_def neighbors_run_def neighbors_body_def deltas_def
      js_rem_def Let_def)
lemma blank_home_4:
  assumes "a \<noteq> 0" "b \<noteq> 0" "c \<noteq> 0" "d \<noteq> 0" "e \<noteq> 0" "f \<noteq> 0" "g \<noteq> 0" "h \<noteq> 0"
  shows "run [a, b, c, d, 0, e, f, g, h] [3, 1] = Some [a, b, c, d, g, e, f, h, 0]"
  using assms
  by (simp add: pos_def swap_def neighbors_def neighbors_run_def neighbors_body_def deltas_def
      js_rem_def Let_def)
lemma blank_home_5:
  assumes "a \<noteq> 0" "b \<noteq> 0" "c \<noteq> 0" "d \<noteq> 0" "e \<noteq> 0" "f \<noteq> 0" "g \<noteq> 0" "h \<noteq> 0"
  shows "run [a, b, c, d, e, 0, f, g, h] [3] = Some [a, b, c, d, e, h, f, g, 0]"
  using assms
  by (simp add: pos_def swap_def neighbors_def neighbors_run_def neighbors_body_def deltas_def
      js_rem_def Let_def)
lemma blank_home_6:
  assumes "a \<noteq> 0" "b \<noteq> 0" "c \<noteq> 0" "d \<noteq> 0" "e \<noteq> 0" "f \<noteq> 0" "g \<noteq> 0" "h \<noteq> 0"
  shows "run [a, b, c, d, e, f, 0, g, h] [1, 1] = Some [a, b, c, d, e, f, g, h, 0]"
  using assms
  by (simp add: pos_def swap_def neighbors_def neighbors_run_def neighbors_body_def deltas_def
      js_rem_def Let_def)
lemma blank_home_7:
  assumes "a \<noteq> 0" "b \<noteq> 0" "c \<noteq> 0" "d \<noteq> 0" "e \<noteq> 0" "f \<noteq> 0" "g \<noteq> 0" "h \<noteq> 0"
  shows "run [a, b, c, d, e, f, g, 0, h] [1] = Some [a, b, c, d, e, f, g, h, 0]"
  using assms
  by (simp add: pos_def swap_def neighbors_def neighbors_run_def neighbors_body_def deltas_def
      js_rem_def Let_def)
lemma blank_home_8:
  assumes "a \<noteq> 0" "b \<noteq> 0" "c \<noteq> 0" "d \<noteq> 0" "e \<noteq> 0" "f \<noteq> 0" "g \<noteq> 0" "h \<noteq> 0"
  shows "run [a, b, c, d, e, f, g, h, 0] [] = Some [a, b, c, d, e, f, g, h, 0]"
  using assms
  by (simp add: pos_def swap_def neighbors_def neighbors_run_def neighbors_body_def deltas_def
      js_rem_def Let_def)
lemma blank_home:
  assumes "valid s"
  shows "\<exists>a b c d e f g h. reach s [a, b, c, d, e, f, g, h, 0]"
proof -
  obtain x0 x1 x2 x3 x4 x5 x6 x7 x8 where s: "s = [x0, x1, x2, x3, x4, x5, x6, x7, x8]"
    using list9 [OF valid_length [OF assms]] by blast
  have d: "distinct [x0, x1, x2, x3, x4, x5, x6, x7, x8]"
    using valid_distinct [OF assms] by (simp add: s)
  have "0 \<in> set s" using valid_set [OF assms] by simp
  then consider "x0 = 0" | "x1 = 0" | "x2 = 0" | "x3 = 0" | "x4 = 0" | "x5 = 0" | "x6 = 0" | "x7 = 0" | "x8 = 0"
    by (auto simp: s)
  then show ?thesis
  proof cases
    case 1
    with d have nz: "x1 \<noteq> 0" "x2 \<noteq> 0" "x3 \<noteq> 0" "x4 \<noteq> 0" "x5 \<noteq> 0" "x6 \<noteq> 0" "x7 \<noteq> 0" "x8 \<noteq> 0" by auto
    from run_reach [OF blank_home_0 [OF nz]] show ?thesis
      unfolding s 1 by blast
  next
    case 2
    with d have nz: "x0 \<noteq> 0" "x2 \<noteq> 0" "x3 \<noteq> 0" "x4 \<noteq> 0" "x5 \<noteq> 0" "x6 \<noteq> 0" "x7 \<noteq> 0" "x8 \<noteq> 0" by auto
    from run_reach [OF blank_home_1 [OF nz]] show ?thesis
      unfolding s 2 by blast
  next
    case 3
    with d have nz: "x0 \<noteq> 0" "x1 \<noteq> 0" "x3 \<noteq> 0" "x4 \<noteq> 0" "x5 \<noteq> 0" "x6 \<noteq> 0" "x7 \<noteq> 0" "x8 \<noteq> 0" by auto
    from run_reach [OF blank_home_2 [OF nz]] show ?thesis
      unfolding s 3 by blast
  next
    case 4
    with d have nz: "x0 \<noteq> 0" "x1 \<noteq> 0" "x2 \<noteq> 0" "x4 \<noteq> 0" "x5 \<noteq> 0" "x6 \<noteq> 0" "x7 \<noteq> 0" "x8 \<noteq> 0" by auto
    from run_reach [OF blank_home_3 [OF nz]] show ?thesis
      unfolding s 4 by blast
  next
    case 5
    with d have nz: "x0 \<noteq> 0" "x1 \<noteq> 0" "x2 \<noteq> 0" "x3 \<noteq> 0" "x5 \<noteq> 0" "x6 \<noteq> 0" "x7 \<noteq> 0" "x8 \<noteq> 0" by auto
    from run_reach [OF blank_home_4 [OF nz]] show ?thesis
      unfolding s 5 by blast
  next
    case 6
    with d have nz: "x0 \<noteq> 0" "x1 \<noteq> 0" "x2 \<noteq> 0" "x3 \<noteq> 0" "x4 \<noteq> 0" "x6 \<noteq> 0" "x7 \<noteq> 0" "x8 \<noteq> 0" by auto
    from run_reach [OF blank_home_5 [OF nz]] show ?thesis
      unfolding s 6 by blast
  next
    case 7
    with d have nz: "x0 \<noteq> 0" "x1 \<noteq> 0" "x2 \<noteq> 0" "x3 \<noteq> 0" "x4 \<noteq> 0" "x5 \<noteq> 0" "x7 \<noteq> 0" "x8 \<noteq> 0" by auto
    from run_reach [OF blank_home_6 [OF nz]] show ?thesis
      unfolding s 7 by blast
  next
    case 8
    with d have nz: "x0 \<noteq> 0" "x1 \<noteq> 0" "x2 \<noteq> 0" "x3 \<noteq> 0" "x4 \<noteq> 0" "x5 \<noteq> 0" "x6 \<noteq> 0" "x8 \<noteq> 0" by auto
    from run_reach [OF blank_home_7 [OF nz]] show ?thesis
      unfolding s 8 by blast
  next
    case 9
    with d have nz: "x0 \<noteq> 0" "x1 \<noteq> 0" "x2 \<noteq> 0" "x3 \<noteq> 0" "x4 \<noteq> 0" "x5 \<noteq> 0" "x6 \<noteq> 0" "x7 \<noteq> 0" by auto
    from run_reach [OF blank_home_8 [OF nz]] show ?thesis
      unfolding s 9 by blast
  qed
qed

lemma tiles_nonzero:
  assumes "valid [a, b, c, d, e, f, g, h, 0]"
  shows "a \<noteq> 0" "b \<noteq> 0" "c \<noteq> 0" "d \<noteq> 0" "e \<noteq> 0" "f \<noteq> 0" "g \<noteq> 0" "h \<noteq> 0"
  using valid_distinct [OF assms] by auto

subsection \<open>The tiles 1 to 6 are placed one after the other\<close>
lemma place_1_1:
  assumes "a \<noteq> 0" "b \<noteq> 0" "c \<noteq> 0" "d \<noteq> 0" "e \<noteq> 0" "f \<noteq> 0" "g \<noteq> 0" "h \<noteq> 0"
  shows "run [a, b, c, d, e, f, g, h, 0] [- 3, - 1, - 1, - 3, 1, 3, 3, 1] = Some [b, d, c, a, h, e, g, f, 0]"
  using assms
  by (simp add: pos_def swap_def neighbors_def neighbors_run_def neighbors_body_def deltas_def
      js_rem_def Let_def)
lemma place_1_2:
  assumes "a \<noteq> 0" "b \<noteq> 0" "c \<noteq> 0" "d \<noteq> 0" "e \<noteq> 0" "f \<noteq> 0" "g \<noteq> 0" "h \<noteq> 0"
  shows "run [a, b, c, d, e, f, g, h, 0] [- 3, - 1, - 3, 1, 3, - 1, - 1, - 3, 1, 3, 3, 1] = Some [c, d, e, a, h, b, g, f, 0]"
  using assms
  by (simp add: pos_def swap_def neighbors_def neighbors_run_def neighbors_body_def deltas_def
      js_rem_def Let_def)
lemma place_1_3:
  assumes "a \<noteq> 0" "b \<noteq> 0" "c \<noteq> 0" "d \<noteq> 0" "e \<noteq> 0" "f \<noteq> 0" "g \<noteq> 0" "h \<noteq> 0"
  shows "run [a, b, c, d, e, f, g, h, 0] [- 3, - 3, - 1, - 1, 3, 3, 1, 1] = Some [d, a, b, g, e, c, h, f, 0]"
  using assms
  by (simp add: pos_def swap_def neighbors_def neighbors_run_def neighbors_body_def deltas_def
      js_rem_def Let_def)
lemma place_1_4:
  assumes "a \<noteq> 0" "b \<noteq> 0" "c \<noteq> 0" "d \<noteq> 0" "e \<noteq> 0" "f \<noteq> 0" "g \<noteq> 0" "h \<noteq> 0"
  shows "run [a, b, c, d, e, f, g, h, 0] [- 3, - 3, - 1, 3, - 1, - 3, 1, 3, 3, 1] = Some [e, d, b, a, h, c, g, f, 0]"
  using assms
  by (simp add: pos_def swap_def neighbors_def neighbors_run_def neighbors_body_def deltas_def
      js_rem_def Let_def)
lemma place_1_5:
  assumes "a \<noteq> 0" "b \<noteq> 0" "c \<noteq> 0" "d \<noteq> 0" "e \<noteq> 0" "f \<noteq> 0" "g \<noteq> 0" "h \<noteq> 0"
  shows "run [a, b, c, d, e, f, g, h, 0] [- 1, - 3, 1, - 3, - 1, 3, - 1, - 3, 1, 3, 3, 1] = Some [f, d, b, a, e, c, g, h, 0]"
  using assms
  by (simp add: pos_def swap_def neighbors_def neighbors_run_def neighbors_body_def deltas_def
      js_rem_def Let_def)
lemma place_1_6:
  assumes "a \<noteq> 0" "b \<noteq> 0" "c \<noteq> 0" "d \<noteq> 0" "e \<noteq> 0" "f \<noteq> 0" "g \<noteq> 0" "h \<noteq> 0"
  shows "run [a, b, c, d, e, f, g, h, 0] [- 3, - 1, - 1, 3, 1, - 3, - 3, - 1, 3, 3, 1, 1] = Some [g, a, c, h, b, e, d, f, 0]"
  using assms
  by (simp add: pos_def swap_def neighbors_def neighbors_run_def neighbors_body_def deltas_def
      js_rem_def Let_def)
lemma place_1_7:
  assumes "a \<noteq> 0" "b \<noteq> 0" "c \<noteq> 0" "d \<noteq> 0" "e \<noteq> 0" "f \<noteq> 0" "g \<noteq> 0" "h \<noteq> 0"
  shows "run [a, b, c, d, e, f, g, h, 0] [- 3, - 1, 3, - 1, - 3, 1, - 3, - 1, 3, 3, 1, 1] = Some [h, a, c, d, b, e, g, f, 0]"
  using assms
  by (simp add: pos_def swap_def neighbors_def neighbors_run_def neighbors_body_def deltas_def
      js_rem_def Let_def)
lemma place_2_2:
  assumes "a \<noteq> 0" "b \<noteq> 0" "c \<noteq> 0" "d \<noteq> 0" "e \<noteq> 0" "f \<noteq> 0" "g \<noteq> 0" "h \<noteq> 0"
  shows "run [a, b, c, d, e, f, g, h, 0] [- 3, - 1, - 3, 1, 3, 3] = Some [a, c, e, d, b, f, g, h, 0]"
  using assms
  by (simp add: pos_def swap_def neighbors_def neighbors_run_def neighbors_body_def deltas_def
      js_rem_def Let_def)
lemma place_2_3:
  assumes "a \<noteq> 0" "b \<noteq> 0" "c \<noteq> 0" "d \<noteq> 0" "e \<noteq> 0" "f \<noteq> 0" "g \<noteq> 0" "h \<noteq> 0"
  shows "run [a, b, c, d, e, f, g, h, 0] [- 3, - 1, - 1, 3, 1, 1, - 3, - 3, - 1, 3, 3, 1] = Some [a, d, b, g, f, c, h, e, 0]"
  using assms
  by (simp add: pos_def swap_def neighbors_def neighbors_run_def neighbors_body_def deltas_def
      js_rem_def Let_def)
lemma place_2_4:
  assumes "a \<noteq> 0" "b \<noteq> 0" "c \<noteq> 0" "d \<noteq> 0" "e \<noteq> 0" "f \<noteq> 0" "g \<noteq> 0" "h \<noteq> 0"
  shows "run [a, b, c, d, e, f, g, h, 0] [- 3, - 3, - 1, 3, 3, 1] = Some [a, e, b, d, h, c, g, f, 0]"
  using assms
  by (simp add: pos_def swap_def neighbors_def neighbors_run_def neighbors_body_def deltas_def
      js_rem_def Let_def)
lemma place_2_5:
  assumes "a \<noteq> 0" "b \<noteq> 0" "c \<noteq> 0" "d \<noteq> 0" "e \<noteq> 0" "f \<noteq> 0" "g \<noteq> 0" "h \<noteq> 0"
  shows "run [a, b, c, d, e, f, g, h, 0] [- 1, - 3, 1, - 3, - 1, 3, 3, 1] = Some [a, f, b, d, e, c, g, h, 0]"
  using assms
  by (simp add: pos_def swap_def neighbors_def neighbors_run_def neighbors_body_def deltas_def
      js_rem_def Let_def)
lemma place_2_6:
  assumes "a \<noteq> 0" "b \<noteq> 0" "c \<noteq> 0" "d \<noteq> 0" "e \<noteq> 0" "f \<noteq> 0" "g \<noteq> 0" "h \<noteq> 0"
  shows "run [a, b, c, d, e, f, g, h, 0] [- 1, - 1, - 3, 1, 3, 1, - 3, - 3, - 1, 3, 3, 1] = Some [a, g, b, e, h, c, d, f, 0]"
  using assms
  by (simp add: pos_def swap_def neighbors_def neighbors_run_def neighbors_body_def deltas_def
      js_rem_def Let_def)
lemma place_2_7:
  assumes "a \<noteq> 0" "b \<noteq> 0" "c \<noteq> 0" "d \<noteq> 0" "e \<noteq> 0" "f \<noteq> 0" "g \<noteq> 0" "h \<noteq> 0"
  shows "run [a, b, c, d, e, f, g, h, 0] [- 3, - 1, 3, 1, - 3, - 3, - 1, 3, 3, 1] = Some [a, h, b, d, f, c, g, e, 0]"
  using assms
  by (simp add: pos_def swap_def neighbors_def neighbors_run_def neighbors_body_def deltas_def
      js_rem_def Let_def)
lemma place_3_3:
  assumes "a \<noteq> 0" "b \<noteq> 0" "c \<noteq> 0" "d \<noteq> 0" "e \<noteq> 0" "f \<noteq> 0" "g \<noteq> 0" "h \<noteq> 0"
  shows "run [a, b, c, d, e, f, g, h, 0] [- 3, - 3, - 1, 3, - 1, 3, 1, 1, - 3, - 1, - 3, 1, 3, 3] = Some [a, b, d, g, e, c, h, f, 0]"
  using assms
  by (simp add: pos_def swap_def neighbors_def neighbors_run_def neighbors_body_def deltas_def
      js_rem_def Let_def)
lemma place_3_4:
  assumes "a \<noteq> 0" "b \<noteq> 0" "c \<noteq> 0" "d \<noteq> 0" "e \<noteq> 0" "f \<noteq> 0" "g \<noteq> 0" "h \<noteq> 0"
  shows "run [a, b, c, d, e, f, g, h, 0] [- 3, - 1, - 1, - 3, 1, 1, 3, - 1, - 3, - 1, 3, 3, 1, 1] = Some [a, b, e, g, c, d, h, f, 0]"
  using assms
  by (simp add: pos_def swap_def neighbors_def neighbors_run_def neighbors_body_def deltas_def
      js_rem_def Let_def)
lemma place_3_5:
  assumes "a \<noteq> 0" "b \<noteq> 0" "c \<noteq> 0" "d \<noteq> 0" "e \<noteq> 0" "f \<noteq> 0" "g \<noteq> 0" "h \<noteq> 0"
  shows "run [a, b, c, d, e, f, g, h, 0] [- 3, - 3, - 1, 3, 1, 3, - 1, - 3, - 3, 1, 3, 3] = Some [a, b, f, d, e, h, g, c, 0]"
  using assms
  by (simp add: pos_def swap_def neighbors_def neighbors_run_def neighbors_body_def deltas_def
      js_rem_def Let_def)
lemma place_3_6:
  assumes "a \<noteq> 0" "b \<noteq> 0" "c \<noteq> 0" "d \<noteq> 0" "e \<noteq> 0" "f \<noteq> 0" "g \<noteq> 0" "h \<noteq> 0"
  shows "run [a, b, c, d, e, f, g, h, 0] [- 3, - 3, - 1, 3, 3, - 1, - 3, 1, 3, 1, - 3, - 1, - 3, 1, 3, 3] = Some [a, b, g, h, e, c, d, f, 0]"
  using assms
  by (simp add: pos_def swap_def neighbors_def neighbors_run_def neighbors_body_def deltas_def
      js_rem_def Let_def)
lemma place_3_7:
  assumes "a \<noteq> 0" "b \<noteq> 0" "c \<noteq> 0" "d \<noteq> 0" "e \<noteq> 0" "f \<noteq> 0" "g \<noteq> 0" "h \<noteq> 0"
  shows "run [a, b, c, d, e, f, g, h, 0] [- 3, - 3, - 1, 3, 3, 1, - 3, - 1, - 3, 1, 3, 3] = Some [a, b, h, d, e, c, g, f, 0]"
  using assms
  by (simp add: pos_def swap_def neighbors_def neighbors_run_def neighbors_body_def deltas_def
      js_rem_def Let_def)
lemma place_4_4:
  assumes "a \<noteq> 0" "b \<noteq> 0" "c \<noteq> 0" "d \<noteq> 0" "e \<noteq> 0" "f \<noteq> 0" "g \<noteq> 0" "h \<noteq> 0"
  shows "run [a, b, c, d, e, f, g, h, 0] [- 1, - 1, - 3, 1, 3, 1] = Some [a, b, c, e, g, f, d, h, 0]"
  using assms
  by (simp add: pos_def swap_def neighbors_def neighbors_run_def neighbors_body_def deltas_def
      js_rem_def Let_def)
lemma place_4_5:
  assumes "a \<noteq> 0" "b \<noteq> 0" "c \<noteq> 0" "d \<noteq> 0" "e \<noteq> 0" "f \<noteq> 0" "g \<noteq> 0" "h \<noteq> 0"
  shows "run [a, b, c, d, e, f, g, h, 0] [- 1, - 3, 1, 3, - 1, - 1, - 3, 1, 3, 1] = Some [a, b, c, f, g, h, d, e, 0]"
  using assms
  by (simp add: pos_def swap_def neighbors_def neighbors_run_def neighbors_body_def deltas_def
      js_rem_def Let_def)
lemma place_4_6:
  assumes "a \<noteq> 0" "b \<noteq> 0" "c \<noteq> 0" "d \<noteq> 0" "e \<noteq> 0" "f \<noteq> 0" "g \<noteq> 0" "h \<noteq> 0"
  shows "run [a, b, c, d, e, f, g, h, 0] [- 3, - 1, - 1, 3, 1, 1] = Some [a, b, c, g, d, e, h, f, 0]"
  using assms
  by (simp add: pos_def swap_def neighbors_def neighbors_run_def neighbors_body_def deltas_def
      js_rem_def Let_def)
lemma place_4_7:
  assumes "a \<noteq> 0" "b \<noteq> 0" "c \<noteq> 0" "d \<noteq> 0" "e \<noteq> 0" "f \<noteq> 0" "g \<noteq> 0" "h \<noteq> 0"
  shows "run [a, b, c, d, e, f, g, h, 0] [- 3, - 1, 3, - 1, - 3, 1, 3, 1] = Some [a, b, c, h, g, e, d, f, 0]"
  using assms
  by (simp add: pos_def swap_def neighbors_def neighbors_run_def neighbors_body_def deltas_def
      js_rem_def Let_def)
lemma place_5_5:
  assumes "a \<noteq> 0" "b \<noteq> 0" "c \<noteq> 0" "d \<noteq> 0" "e \<noteq> 0" "f \<noteq> 0" "g \<noteq> 0" "h \<noteq> 0"
  shows "run [a, b, c, d, e, f, g, h, 0] [- 1, - 3, 1, 3] = Some [a, b, c, d, f, h, g, e, 0]"
  using assms
  by (simp add: pos_def swap_def neighbors_def neighbors_run_def neighbors_body_def deltas_def
      js_rem_def Let_def)
lemma place_5_6:
  assumes "a \<noteq> 0" "b \<noteq> 0" "c \<noteq> 0" "d \<noteq> 0" "e \<noteq> 0" "f \<noteq> 0" "g \<noteq> 0" "h \<noteq> 0"
  shows "run [a, b, c, d, e, f, g, h, 0] [- 3, - 3, - 1, - 1, 3, 3, 1, - 3, - 1, - 3, 1, 1, 3, 3] = Some [a, b, c, d, g, f, h, e, 0]"
  using assms
  by (simp add: pos_def swap_def neighbors_def neighbors_run_def neighbors_body_def deltas_def
      js_rem_def Let_def)
lemma place_5_7:
  assumes "a \<noteq> 0" "b \<noteq> 0" "c \<noteq> 0" "d \<noteq> 0" "e \<noteq> 0" "f \<noteq> 0" "g \<noteq> 0" "h \<noteq> 0"
  shows "run [a, b, c, d, e, f, g, h, 0] [- 3, - 1, 3, 1] = Some [a, b, c, d, h, e, g, f, 0]"
  using assms
  by (simp add: pos_def swap_def neighbors_def neighbors_run_def neighbors_body_def deltas_def
      js_rem_def Let_def)
lemma place_6_6:
  assumes "a \<noteq> 0" "b \<noteq> 0" "c \<noteq> 0" "d \<noteq> 0" "e \<noteq> 0" "f \<noteq> 0" "g \<noteq> 0" "h \<noteq> 0"
  shows "run [a, b, c, d, e, f, g, h, 0] [- 1, - 1, - 3, 1, 3, 1, - 3, - 1, - 1, 3, 1, 1] = Some [a, b, c, d, e, g, h, f, 0]"
  using assms
  by (simp add: pos_def swap_def neighbors_def neighbors_run_def neighbors_body_def deltas_def
      js_rem_def Let_def)
lemma place_6_7:
  assumes "a \<noteq> 0" "b \<noteq> 0" "c \<noteq> 0" "d \<noteq> 0" "e \<noteq> 0" "f \<noteq> 0" "g \<noteq> 0" "h \<noteq> 0"
  shows "run [a, b, c, d, e, f, g, h, 0] [- 1, - 1, - 3, 1, 1, 3, - 1, - 3, - 1, 3, 1, 1] = Some [a, b, c, d, e, h, f, g, 0]"
  using assms
  by (simp add: pos_def swap_def neighbors_def neighbors_run_def neighbors_body_def deltas_def
      js_rem_def Let_def)
lemma stage_1:
  assumes "valid [a, b, c, d, e, f, g, h, 0]"
  shows "\<exists>b' c' d' e' f' g' h'. reach [a, b, c, d, e, f, g, h, 0] [1, b', c', d', e', f', g', h', 0]"
proof -
  note nz = tiles_nonzero [OF assms]
  have "1 \<in> set [a, b, c, d, e, f, g, h, 0]" using valid_set [OF assms] by simp
  then consider "a = 1" | "b = 1" | "c = 1" | "d = 1" | "e = 1" | "f = 1" | "g = 1" | "h = 1"
    by auto
  then show ?thesis
  proof cases
    case 1
    then show ?thesis using reach_refl by blast
  next
    case 2
    from run_reach [OF place_1_1 [OF nz]] show ?thesis
      unfolding 2 by blast
  next
    case 3
    from run_reach [OF place_1_2 [OF nz]] show ?thesis
      unfolding 3 by blast
  next
    case 4
    from run_reach [OF place_1_3 [OF nz]] show ?thesis
      unfolding 4 by blast
  next
    case 5
    from run_reach [OF place_1_4 [OF nz]] show ?thesis
      unfolding 5 by blast
  next
    case 6
    from run_reach [OF place_1_5 [OF nz]] show ?thesis
      unfolding 6 by blast
  next
    case 7
    from run_reach [OF place_1_6 [OF nz]] show ?thesis
      unfolding 7 by blast
  next
    case 8
    from run_reach [OF place_1_7 [OF nz]] show ?thesis
      unfolding 8 by blast
  qed
qed

lemma stage_2:
  assumes "valid [1, b, c, d, e, f, g, h, 0]"
  shows "\<exists>c' d' e' f' g' h'. reach [1, b, c, d, e, f, g, h, 0] [1, 2, c', d', e', f', g', h', 0]"
proof -
  note nz = tiles_nonzero [OF assms]
  have "2 \<in> set [1, b, c, d, e, f, g, h, 0]" using valid_set [OF assms] by simp
  then consider "b = 2" | "c = 2" | "d = 2" | "e = 2" | "f = 2" | "g = 2" | "h = 2"
    by auto
  then show ?thesis
  proof cases
    case 1
    then show ?thesis using reach_refl by blast
  next
    case 2
    from run_reach [OF place_2_2 [OF nz]] show ?thesis
      unfolding 2 by blast
  next
    case 3
    from run_reach [OF place_2_3 [OF nz]] show ?thesis
      unfolding 3 by blast
  next
    case 4
    from run_reach [OF place_2_4 [OF nz]] show ?thesis
      unfolding 4 by blast
  next
    case 5
    from run_reach [OF place_2_5 [OF nz]] show ?thesis
      unfolding 5 by blast
  next
    case 6
    from run_reach [OF place_2_6 [OF nz]] show ?thesis
      unfolding 6 by blast
  next
    case 7
    from run_reach [OF place_2_7 [OF nz]] show ?thesis
      unfolding 7 by blast
  qed
qed

lemma stage_3:
  assumes "valid [1, 2, c, d, e, f, g, h, 0]"
  shows "\<exists>d' e' f' g' h'. reach [1, 2, c, d, e, f, g, h, 0] [1, 2, 3, d', e', f', g', h', 0]"
proof -
  note nz = tiles_nonzero [OF assms]
  have "3 \<in> set [1, 2, c, d, e, f, g, h, 0]" using valid_set [OF assms] by simp
  then consider "c = 3" | "d = 3" | "e = 3" | "f = 3" | "g = 3" | "h = 3"
    by auto
  then show ?thesis
  proof cases
    case 1
    then show ?thesis using reach_refl by blast
  next
    case 2
    from run_reach [OF place_3_3 [OF nz]] show ?thesis
      unfolding 2 by blast
  next
    case 3
    from run_reach [OF place_3_4 [OF nz]] show ?thesis
      unfolding 3 by blast
  next
    case 4
    from run_reach [OF place_3_5 [OF nz]] show ?thesis
      unfolding 4 by blast
  next
    case 5
    from run_reach [OF place_3_6 [OF nz]] show ?thesis
      unfolding 5 by blast
  next
    case 6
    from run_reach [OF place_3_7 [OF nz]] show ?thesis
      unfolding 6 by blast
  qed
qed

lemma stage_4:
  assumes "valid [1, 2, 3, d, e, f, g, h, 0]"
  shows "\<exists>e' f' g' h'. reach [1, 2, 3, d, e, f, g, h, 0] [1, 2, 3, 4, e', f', g', h', 0]"
proof -
  note nz = tiles_nonzero [OF assms]
  have "4 \<in> set [1, 2, 3, d, e, f, g, h, 0]" using valid_set [OF assms] by simp
  then consider "d = 4" | "e = 4" | "f = 4" | "g = 4" | "h = 4"
    by auto
  then show ?thesis
  proof cases
    case 1
    then show ?thesis using reach_refl by blast
  next
    case 2
    from run_reach [OF place_4_4 [OF nz]] show ?thesis
      unfolding 2 by blast
  next
    case 3
    from run_reach [OF place_4_5 [OF nz]] show ?thesis
      unfolding 3 by blast
  next
    case 4
    from run_reach [OF place_4_6 [OF nz]] show ?thesis
      unfolding 4 by blast
  next
    case 5
    from run_reach [OF place_4_7 [OF nz]] show ?thesis
      unfolding 5 by blast
  qed
qed

lemma stage_5:
  assumes "valid [1, 2, 3, 4, e, f, g, h, 0]"
  shows "\<exists>f' g' h'. reach [1, 2, 3, 4, e, f, g, h, 0] [1, 2, 3, 4, 5, f', g', h', 0]"
proof -
  note nz = tiles_nonzero [OF assms]
  have "5 \<in> set [1, 2, 3, 4, e, f, g, h, 0]" using valid_set [OF assms] by simp
  then consider "e = 5" | "f = 5" | "g = 5" | "h = 5"
    by auto
  then show ?thesis
  proof cases
    case 1
    then show ?thesis using reach_refl by blast
  next
    case 2
    from run_reach [OF place_5_5 [OF nz]] show ?thesis
      unfolding 2 by blast
  next
    case 3
    from run_reach [OF place_5_6 [OF nz]] show ?thesis
      unfolding 3 by blast
  next
    case 4
    from run_reach [OF place_5_7 [OF nz]] show ?thesis
      unfolding 4 by blast
  qed
qed

lemma stage_6:
  assumes "valid [1, 2, 3, 4, 5, f, g, h, 0]"
  shows "\<exists>g' h'. reach [1, 2, 3, 4, 5, f, g, h, 0] [1, 2, 3, 4, 5, 6, g', h', 0]"
proof -
  note nz = tiles_nonzero [OF assms]
  have "6 \<in> set [1, 2, 3, 4, 5, f, g, h, 0]" using valid_set [OF assms] by simp
  then consider "f = 6" | "g = 6" | "h = 6"
    by auto
  then show ?thesis
  proof cases
    case 1
    then show ?thesis using reach_refl by blast
  next
    case 2
    from run_reach [OF place_6_6 [OF nz]] show ?thesis
      unfolding 2 by blast
  next
    case 3
    from run_reach [OF place_6_7 [OF nz]] show ?thesis
      unfolding 3 by blast
  qed
qed

lemma stage_final:
  assumes "valid [1, 2, 3, 4, 5, 6, g, h, 0]" "isSolvable [1, 2, 3, 4, 5, 6, g, h, 0]"
  shows "[1, 2, 3, 4, 5, 6, g, h, 0] = GOAL"
proof -
  have "7 \<in> set [1, 2, 3, 4, 5, 6, g, h, 0]" "8 \<in> set [1, 2, 3, 4, 5, 6, g, h, 0]"
    using valid_set [OF assms(1)] by simp_all
  then have gh: "g = 7 \<or> h = 7" "g = 8 \<or> h = 8" by auto
  have "\<not> isSolvable [1, 2, 3, 4, 5, 6, 8, 7, 0]"
    by (simp add: isSolvable_def inversions_def)
  with assms(2) have "\<not> (g = 8 \<and> h = 7)" by auto
  with gh show ?thesis by (auto simp: GOAL_def)
qed

lemma solvable_reach_GOAL:
  assumes "valid s" "isSolvable s"
  shows "reach s GOAL"
proof -
  obtain a0 b0 c0 d0 e0 f0 g0 h0 where r0: "reach s [a0, b0, c0, d0, e0, f0, g0, h0, 0]"
    using blank_home [OF assms(1)] by blast
  note v0 = reach_valid [OF assms(1) r0]
  obtain b1 c1 d1 e1 f1 g1 h1 where
    r1: "reach [a0, b0, c0, d0, e0, f0, g0, h0, 0] [1, b1, c1, d1, e1, f1, g1, h1, 0]"
    using stage_1 [OF v0] by blast
  note v1 = reach_valid [OF v0 r1]
  obtain c2 d2 e2 f2 g2 h2 where
    r2: "reach [1, b1, c1, d1, e1, f1, g1, h1, 0] [1, 2, c2, d2, e2, f2, g2, h2, 0]"
    using stage_2 [OF v1] by blast
  note v2 = reach_valid [OF v1 r2]
  obtain d3 e3 f3 g3 h3 where
    r3: "reach [1, 2, c2, d2, e2, f2, g2, h2, 0] [1, 2, 3, d3, e3, f3, g3, h3, 0]"
    using stage_3 [OF v2] by blast
  note v3 = reach_valid [OF v2 r3]
  obtain e4 f4 g4 h4 where
    r4: "reach [1, 2, 3, d3, e3, f3, g3, h3, 0] [1, 2, 3, 4, e4, f4, g4, h4, 0]"
    using stage_4 [OF v3] by blast
  note v4 = reach_valid [OF v3 r4]
  obtain f5 g5 h5 where
    r5: "reach [1, 2, 3, 4, e4, f4, g4, h4, 0] [1, 2, 3, 4, 5, f5, g5, h5, 0]"
    using stage_5 [OF v4] by blast
  note v5 = reach_valid [OF v4 r5]
  obtain g6 h6 where
    r6: "reach [1, 2, 3, 4, 5, f5, g5, h5, 0] [1, 2, 3, 4, 5, 6, g6, h6, 0]"
    using stage_6 [OF v5] by blast
  note v6 = reach_valid [OF v5 r6]
  have r: "reach s [1, 2, 3, 4, 5, 6, g6, h6, 0]"
    using r0 r1 r2 r3 r4 r5 r6 by (blast intro: reach_trans)
  from reach_solvable [OF assms(1) r] assms(2)
  have "isSolvable [1, 2, 3, 4, 5, 6, g6, h6, 0]" by simp
  from stage_final [OF v6 this] r show ?thesis by simp
qed

section \<open>Moves can be undone\<close>

lemma swap_swap:
  assumes "0 \<le> i" "i < int (length s)" "0 \<le> j" "j < int (length s)"
  shows "swap (swap s i j) j i = s"
  using assms by (auto simp: swap_def list_eq_iff_nth_eq nth_list_update)

lemma pos_swap_blank:
  assumes "valid s" "0 \<le> nz" "nz \<le> 8"
  shows "pos (swap s (pos s 0) nz) 0 = nz"
proof -
  define z where "z = pos s 0"
  have z: "0 \<le> z" "z \<le> 8" "s ! nat z = 0" using valid_pos0 [OF assms(1)] by (simp_all add: z_def)
  have len: "length s = 9" using assms(1) by (rule valid_length)
  have "swap s z nz ! nat nz = 0"
    using z assms len by (simp add: swap_def)
  moreover have "distinct (swap s z nz)" "nat nz < length (swap s z nz)"
    using valid_distinct [OF valid_swap [OF assms(1) z(1,2) assms(2,3)]] assms len
    by (simp_all add: swap_def)
  ultimately have "indexOf (swap s z nz) 0 = int (nat nz)"
    using indexOf_unique [of "swap s z nz" "nat nz"] by simp
  then show ?thesis using assms by (simp add: pos_def z_def)
qed

lemma neighbors_sym:
  assumes "valid s" "n \<in> set (neighbors s)"
  shows "s \<in> set (neighbors n)"
proof -
  obtain nz where nz: "n = swap s (pos s 0) nz" "0 \<le> nz" "nz \<le> 8"
    "\<bar>pos s 0 div 3 - nz div 3\<bar> + \<bar>js_rem (pos s 0) 3 - js_rem nz 3\<bar> = 1"
    using neighbors_adjacent [OF assms] by blast
  have z: "0 \<le> pos s 0" "pos s 0 \<le> 8" using valid_pos0 [OF assms(1)] by simp_all
  have len: "length s = 9" using assms(1) by (rule valid_length)
  have vn: "valid n" using assms by (rule valid_neighbors)
  have pn: "pos n 0 = nz" unfolding nz(1) using assms(1) nz(2,3) by (rule pos_swap_blank)
  have undo: "swap n nz (pos s 0) = s"
    unfolding nz(1) using z nz(2,3) len by (intro swap_swap) simp_all
  have "\<bar>nz div 3 - pos s 0 div 3\<bar> + \<bar>js_rem nz 3 - js_rem (pos s 0) 3\<bar> = 1"
    using nz(4) by linarith
  then have "swap n nz (pos s 0) \<in> set (neighbors n)"
    unfolding neighbors_member [OF vn pn z] grid_adjacent_iff [OF nz(2,3) z] .
  then show ?thesis by (simp add: undo)
qed

lemma reach_sym:
  assumes "valid s" "reach s t"
  shows "reach t s"
proof -
  from assms(2) obtain ps where "route s ps t" unfolding reach_def by blast
  with assms(1) show ?thesis
  proof (induction ps arbitrary: s)
    case Nil
    then show ?case by (simp add: route_def reach_refl)
  next
    case (Cons p ps)
    then have p: "p \<in> set (neighbors s)" "route p ps t" by (simp_all add: route_def)
    have vp: "valid p" using Cons.prems(1) p(1) by (rule valid_neighbors)
    have "route p [s] s" using neighbors_sym [OF Cons.prems(1) p(1)] by (simp add: route_def)
    then have "reach p s" unfolding reach_def by blast
    with Cons.IH [OF vp p(2)] show ?case by (rule reach_trans)
  qed
qed

section \<open>A certified lower bound\<close>

lemma run_route: "run s ds = Some t \<Longrightarrow> \<exists>ps. route s ps t \<and> length ps = length ds"
proof (induction ds arbitrary: s)
  case Nil
  then have "route s [] t" by (simp add: route_def)
  then show ?case by auto
next
  case (Cons d ds)
  define u where "u = swap s (pos s 0) (pos s 0 + d)"
  from Cons.prems have u: "u \<in> set (neighbors s)" and r: "run u ds = Some t"
    by (simp_all add: u_def Let_def split: if_splits)
  from Cons.IH [OF r] obtain ps where ps: "route u ps t" "length ps = length ds" by blast
  have "route s (u # ps) t" using u ps(1) by (simp add: route_def)
  with ps(2) show ?case by (intro exI [of _ "u # ps"]) simp
qed

lemma no_short_route_sound:
  "valid s \<Longrightarrow> no_short_route n s \<Longrightarrow> route s ps GOAL \<Longrightarrow> n < length ps"
proof (induction n arbitrary: s ps)
  case 0
  then show ?case by (cases ps) (simp_all add: route_def)
next
  case (Suc k)
  show ?case
  proof (cases ps)
    case Nil
    with Suc.prems show ?thesis by (simp add: route_def)
  next
    case (Cons p qs)
    with Suc.prems(3) have p: "p \<in> set (neighbors s)" "route p qs GOAL"
      by (simp_all add: route_def)
    have vp: "valid p" using Suc.prems(1) p(1) by (rule valid_neighbors)
    from Suc.prems(2) consider "Suc k < manhattan s"
      | "list_all (no_short_route k) (neighbors s)" by auto
    then show ?thesis
    proof cases
      case 1
      have "manhattan s \<le> length ps"
        using Suc.prems(1,3) by (intro manhattan_admissible) (simp_all add: route_def)
      with 1 show ?thesis by simp
    next
      case 2
      with p(1) have "no_short_route k p" by (simp add: list_all_iff)
      from Suc.IH [OF vp this p(2)] Cons show ?thesis by simp
    qed
  qed
qed

lemma hard_instance_upper:
  "run [8, 1, 2, 7, 0, 3, 6, 5, 4]
     [- 1, - 3, 1, 1, 3, 3, - 1, - 1, - 3, 1, 1, 3, - 1, - 1, - 3, 1, 1, 3] = Some GOAL"
  by (simp add: pos_def swap_def neighbors_def neighbors_run_def neighbors_body_def deltas_def
      js_rem_def Let_def GOAL_def)

lemma hard_instance_lower: "no_short_route 17 [8, 1, 2, 7, 0, 3, 6, 5, 4]"
  by code_simp

section \<open>Solvability, and the result of the solver\<close>

text \<open>
  C2. For a valid configuration \<open>C\<close>, \<open>isSolvable C\<close> holds exactly when \<open>C\<close> can be
  reached from the goal configuration by legal moves, and exactly when the number of
  inverted pairs of \<open>C\<close> with the blank removed is even.
\<close>

theorem isSolvable_iff_reachable:
  assumes "valid C"
  shows "(isSolvable C \<longleftrightarrow> (\<exists>ps. path_from GOAL ps \<and> last (GOAL # ps) = C)) \<and>
         (isSolvable C \<longleftrightarrow> even (inversion_count (filter (\<lambda>x. x \<noteq> 0) C)))"
proof
  show "isSolvable C \<longleftrightarrow> (\<exists>ps. path_from GOAL ps \<and> last (GOAL # ps) = C)"
  proof
    assume "isSolvable C"
    with assms have "reach C GOAL" by (rule solvable_reach_GOAL)
    with assms have "reach GOAL C" by (rule reach_sym)
    then show "\<exists>ps. path_from GOAL ps \<and> last (GOAL # ps) = C"
      by (simp add: reach_def route_def)
  next
    assume "\<exists>ps. path_from GOAL ps \<and> last (GOAL # ps) = C"
    then obtain ps where "route GOAL ps C" by (auto simp: route_def)
    from route_solvable [OF valid_GOAL this] isSolvable_GOAL show "isSolvable C" by simp
  qed
  show "isSolvable C \<longleftrightarrow> even (inversion_count (filter (\<lambda>x. x \<noteq> 0) C))"
    by (simp add: isSolvable_def inversions_inversion_count even_iff_mod_2_eq_zero)
qed

theorem isSolvable_iff_reachable_witness:
  "valid [8, 1, 2, 7, 0, 3, 6, 5, 4] \<and> isSolvable [8, 1, 2, 7, 0, 3, 6, 5, 4] \<and>
   (\<exists>ps. path_from GOAL ps \<and> last (GOAL # ps) = [8, 1, 2, 7, 0, 3, 6, 5, 4]) \<and>
   even (inversion_count (filter (\<lambda>x. x \<noteq> 0) [8, 1, 2, 7, 0, 3, 6, 5, 4]))"
proof -
  have v: "valid [8, 1, 2, 7, 0, 3, 6, 5, 4]" by (simp add: valid_def)
  have s: "isSolvable [8, 1, 2, 7, 0, 3, 6, 5, 4]"
    by (simp add: isSolvable_def inversions_def)
  from isSolvable_iff_reachable [OF v] v s show ?thesis by blast
qed

lemma shortest_avoids_start:
  assumes "route s p t" "\<forall>qs. route s qs t \<longrightarrow> length p \<le> length qs"
  shows "s \<notin> set p"
proof
  assume "s \<in> set p"
  then obtain xs ys where p: "p = xs @ s # ys" by (auto simp: in_set_conv_decomp)
  have suffix: "path_from u (xs @ s # ys) \<Longrightarrow> path_from s ys" for u
    by (induction xs arbitrary: u) auto
  have "route s ys t" using assms(1) suffix [of s] by (simp add: route_def p)
  with assms(2) have "length p \<le> length ys" by blast
  then show False by (simp add: p)
qed

text \<open>
  C1. For a valid configuration \<open>C\<close> of even inversion parity, \<open>aStar C\<close> returns a
  sequence \<open>p\<close> of configurations: it starts with a neighbor of \<open>C\<close> (and does not contain
  \<open>C\<close>), each element is a neighbor of the one before, the last is the goal, and no
  sequence of legal moves from \<open>C\<close> to the goal is shorter than \<open>p\<close>.
\<close>

theorem aStar_shortest:
  assumes "valid C" "isSolvable C"
  shows "\<exists>p. aStar C = Some (Some p) \<and> path_from C p \<and> last (C # p) = GOAL \<and> C \<notin> set p \<and>
             (\<forall>qs. path_from C qs \<and> last (C # qs) = GOAL \<longrightarrow> length p \<le> length qs)"
proof -
  from aStar_total [OF assms(1)] obtain r where r: "aStar C = Some r" "astar_post C r"
    by blast
  from solvable_reach_GOAL [OF assms] obtain qs where qs: "route C qs GOAL"
    unfolding reach_def by blast
  with r(2) obtain p where p: "r = Some p" "route C p GOAL"
      "\<forall>qs. route C qs GOAL \<longrightarrow> length p \<le> length qs"
    by (cases r) (auto simp: astar_post_def)
  from shortest_avoids_start [OF p(2,3)] have "C \<notin> set p" .
  with r(1) p show ?thesis by (auto simp: route_def)
qed

theorem aStar_shortest_witness:
  "valid [1, 2, 3, 4, 5, 6, 0, 7, 8] \<and> isSolvable [1, 2, 3, 4, 5, 6, 0, 7, 8] \<and>
   aStar [1, 2, 3, 4, 5, 6, 0, 7, 8] = Some (Some [[1, 2, 3, 4, 5, 6, 7, 0, 8], GOAL]) \<and>
   (\<exists>p. aStar [1, 2, 3, 4, 5, 6, 0, 7, 8] = Some (Some p) \<and>
        path_from [1, 2, 3, 4, 5, 6, 0, 7, 8] p \<and> last ([1, 2, 3, 4, 5, 6, 0, 7, 8] # p) = GOAL \<and>
        [1, 2, 3, 4, 5, 6, 0, 7, 8] \<notin> set p \<and>
        (\<forall>qs. path_from [1, 2, 3, 4, 5, 6, 0, 7, 8] qs \<and>
              last ([1, 2, 3, 4, 5, 6, 0, 7, 8] # qs) = GOAL \<longrightarrow> length p \<le> length qs))"
proof -
  have v: "valid [1, 2, 3, 4, 5, 6, 0, 7, 8]" by (simp add: valid_def)
  have s: "isSolvable [1, 2, 3, 4, 5, 6, 0, 7, 8]"
    by (simp add: isSolvable_def inversions_def)
  have a: "aStar [1, 2, 3, 4, 5, 6, 0, 7, 8] = Some (Some [[1, 2, 3, 4, 5, 6, 7, 0, 8], GOAL])"
    by code_simp
  from aStar_shortest [OF v s] v s a show ?thesis by blast
qed

section \<open>The instance [8,1,2,7,0,3,6,5,4]\<close>

lemma hard_instance:
  "\<exists>p. aStar [8, 1, 2, 7, 0, 3, 6, 5, 4] = Some (Some p) \<and> length p = 18 \<and>
       route [8, 1, 2, 7, 0, 3, 6, 5, 4] p GOAL \<and>
       (\<forall>qs. route [8, 1, 2, 7, 0, 3, 6, 5, 4] qs GOAL \<longrightarrow> 18 \<le> length qs)"
proof -
  have v: "valid [8, 1, 2, 7, 0, 3, 6, 5, 4]" by (simp add: valid_def)
  from aStar_total [OF v] obtain r where
    r: "aStar [8, 1, 2, 7, 0, 3, 6, 5, 4] = Some r" "astar_post [8, 1, 2, 7, 0, 3, 6, 5, 4] r"
    by blast
  from run_route [OF hard_instance_upper] obtain qs where
    qs: "route [8, 1, 2, 7, 0, 3, 6, 5, 4] qs GOAL" "length qs = 18" by auto
  with r(2) obtain p where p: "r = Some p" "route [8, 1, 2, 7, 0, 3, 6, 5, 4] p GOAL"
      "\<forall>qs. route [8, 1, 2, 7, 0, 3, 6, 5, 4] qs GOAL \<longrightarrow> length p \<le> length qs"
    by (cases r) (auto simp: astar_post_def)
  from p(3) qs have "length p \<le> 18" by auto
  moreover from no_short_route_sound [OF v hard_instance_lower p(2)] have "17 < length p" .
  ultimately have "length p = 18" by simp
  with r(1) p show ?thesis by auto
qed

text \<open>
  C4, as stated: for the input \<open>[8,1,2,7,0,3,6,5,4]\<close> the result would have 26 elements.
  It has 18, and so not 26.
\<close>

theorem hard_instance_not_26:
  "map_option (map_option length) (aStar [8, 1, 2, 7, 0, 3, 6, 5, 4]) = Some (Some 18) \<and>
   map_option (map_option length) (aStar [8, 1, 2, 7, 0, 3, 6, 5, 4]) \<noteq> Some (Some 26)"
  using hard_instance by auto

text \<open>
  C4, amended: for the input \<open>[8,1,2,7,0,3,6,5,4]\<close>, \<open>aStar\<close> returns a sequence of exactly
  18 configurations, each a neighbor of the one before and the last one the goal, and 18
  is the least number of legal moves that lead from this configuration to the goal.
\<close>

theorem hard_instance_18:
  "\<exists>p. aStar [8, 1, 2, 7, 0, 3, 6, 5, 4] = Some (Some p) \<and> length p = 18 \<and>
       path_from [8, 1, 2, 7, 0, 3, 6, 5, 4] p \<and> last ([8, 1, 2, 7, 0, 3, 6, 5, 4] # p) = GOAL \<and>
       (\<forall>qs. path_from [8, 1, 2, 7, 0, 3, 6, 5, 4] qs \<and>
             last ([8, 1, 2, 7, 0, 3, 6, 5, 4] # qs) = GOAL \<longrightarrow> 18 \<le> length qs)"
  using hard_instance by (auto simp: route_def)

theorem hard_instance_18_witness:
  "path_from [8, 1, 2, 7, 0, 3, 6, 5, 4]
     [[8, 1, 2, 0, 7, 3, 6, 5, 4],
      [0, 1, 2, 8, 7, 3, 6, 5, 4],
      [1, 0, 2, 8, 7, 3, 6, 5, 4],
      [1, 2, 0, 8, 7, 3, 6, 5, 4],
      [1, 2, 3, 8, 7, 0, 6, 5, 4],
      [1, 2, 3, 8, 7, 4, 6, 5, 0],
      [1, 2, 3, 8, 7, 4, 6, 0, 5],
      [1, 2, 3, 8, 7, 4, 0, 6, 5],
      [1, 2, 3, 0, 7, 4, 8, 6, 5],
      [1, 2, 3, 7, 0, 4, 8, 6, 5],
      [1, 2, 3, 7, 4, 0, 8, 6, 5],
      [1, 2, 3, 7, 4, 5, 8, 6, 0],
      [1, 2, 3, 7, 4, 5, 8, 0, 6],
      [1, 2, 3, 7, 4, 5, 0, 8, 6],
      [1, 2, 3, 0, 4, 5, 7, 8, 6],
      [1, 2, 3, 4, 0, 5, 7, 8, 6],
      [1, 2, 3, 4, 5, 0, 7, 8, 6],
      [1, 2, 3, 4, 5, 6, 7, 8, 0]] \<and>
   last ([8, 1, 2, 7, 0, 3, 6, 5, 4] #
     [[8, 1, 2, 0, 7, 3, 6, 5, 4],
      [0, 1, 2, 8, 7, 3, 6, 5, 4],
      [1, 0, 2, 8, 7, 3, 6, 5, 4],
      [1, 2, 0, 8, 7, 3, 6, 5, 4],
      [1, 2, 3, 8, 7, 0, 6, 5, 4],
      [1, 2, 3, 8, 7, 4, 6, 5, 0],
      [1, 2, 3, 8, 7, 4, 6, 0, 5],
      [1, 2, 3, 8, 7, 4, 0, 6, 5],
      [1, 2, 3, 0, 7, 4, 8, 6, 5],
      [1, 2, 3, 7, 0, 4, 8, 6, 5],
      [1, 2, 3, 7, 4, 0, 8, 6, 5],
      [1, 2, 3, 7, 4, 5, 8, 6, 0],
      [1, 2, 3, 7, 4, 5, 8, 0, 6],
      [1, 2, 3, 7, 4, 5, 0, 8, 6],
      [1, 2, 3, 0, 4, 5, 7, 8, 6],
      [1, 2, 3, 4, 0, 5, 7, 8, 6],
      [1, 2, 3, 4, 5, 0, 7, 8, 6],
      [1, 2, 3, 4, 5, 6, 7, 8, 0]]) = GOAL \<and>
   18 \<le> length
     ([[8, 1, 2, 0, 7, 3, 6, 5, 4],
      [0, 1, 2, 8, 7, 3, 6, 5, 4],
      [1, 0, 2, 8, 7, 3, 6, 5, 4],
      [1, 2, 0, 8, 7, 3, 6, 5, 4],
      [1, 2, 3, 8, 7, 0, 6, 5, 4],
      [1, 2, 3, 8, 7, 4, 6, 5, 0],
      [1, 2, 3, 8, 7, 4, 6, 0, 5],
      [1, 2, 3, 8, 7, 4, 0, 6, 5],
      [1, 2, 3, 0, 7, 4, 8, 6, 5],
      [1, 2, 3, 7, 0, 4, 8, 6, 5],
      [1, 2, 3, 7, 4, 0, 8, 6, 5],
      [1, 2, 3, 7, 4, 5, 8, 6, 0],
      [1, 2, 3, 7, 4, 5, 8, 0, 6],
      [1, 2, 3, 7, 4, 5, 0, 8, 6],
      [1, 2, 3, 0, 4, 5, 7, 8, 6],
      [1, 2, 3, 4, 0, 5, 7, 8, 6],
      [1, 2, 3, 4, 5, 0, 7, 8, 6],
      [1, 2, 3, 4, 5, 6, 7, 8, 0]] :: State list)"
proof -
  define P :: "State list" where "P =
     [[8, 1, 2, 0, 7, 3, 6, 5, 4],
      [0, 1, 2, 8, 7, 3, 6, 5, 4],
      [1, 0, 2, 8, 7, 3, 6, 5, 4],
      [1, 2, 0, 8, 7, 3, 6, 5, 4],
      [1, 2, 3, 8, 7, 0, 6, 5, 4],
      [1, 2, 3, 8, 7, 4, 6, 5, 0],
      [1, 2, 3, 8, 7, 4, 6, 0, 5],
      [1, 2, 3, 8, 7, 4, 0, 6, 5],
      [1, 2, 3, 0, 7, 4, 8, 6, 5],
      [1, 2, 3, 7, 0, 4, 8, 6, 5],
      [1, 2, 3, 7, 4, 0, 8, 6, 5],
      [1, 2, 3, 7, 4, 5, 8, 6, 0],
      [1, 2, 3, 7, 4, 5, 8, 0, 6],
      [1, 2, 3, 7, 4, 5, 0, 8, 6],
      [1, 2, 3, 0, 4, 5, 7, 8, 6],
      [1, 2, 3, 4, 0, 5, 7, 8, 6],
      [1, 2, 3, 4, 5, 0, 7, 8, 6],
      [1, 2, 3, 4, 5, 6, 7, 8, 0]]"
  have n: "neighbors s =
     (if pos s 0 div 3 < 2 then [swap s (pos s 0) (pos s 0 + 3)] else []) @
     (if 0 < pos s 0 div 3 then [swap s (pos s 0) (pos s 0 - 3)] else []) @
     (if pos s 0 mod 3 < 2 then [swap s (pos s 0) (pos s 0 + 1)] else []) @
     (if 0 < pos s 0 mod 3 then [swap s (pos s 0) (pos s 0 - 1)] else [])"
    if "valid s" for s
    using neighbors_formula [OF refl] valid_pos0 [OF that] by simp
  have p: "path_from [8, 1, 2, 7, 0, 3, 6, 5, 4] P"
    unfolding P_def by (simp add: n valid_def pos_def swap_def)
  have l: "last ([8, 1, 2, 7, 0, 3, 6, 5, 4] # P) = GOAL"
    unfolding P_def by (simp add: GOAL_def)
  from hard_instance_18
  have "\<forall>qs. path_from [8, 1, 2, 7, 0, 3, 6, 5, 4] qs \<and>
             last ([8, 1, 2, 7, 0, 3, 6, 5, 4] # qs) = GOAL \<longrightarrow> 18 \<le> length qs"
    by blast
  then have "path_from [8, 1, 2, 7, 0, 3, 6, 5, 4] P \<and>
             last ([8, 1, 2, 7, 0, 3, 6, 5, 4] # P) = GOAL \<longrightarrow> 18 \<le> length P"
    by (rule spec)
  with p l have "path_from [8, 1, 2, 7, 0, 3, 6, 5, 4] P \<and>
      last ([8, 1, 2, 7, 0, 3, 6, 5, 4] # P) = GOAL \<and> 18 \<le> length P"
    by (simp only: simp_thms)
  then show ?thesis unfolding P_def .
qed

end
